theory Spec2Isabelle
  imports Main "HOL-Library.Multiset" "HOL-Library.Char_ord" "HOL-Library.List_Lexorder"
begin

section \<open>Strings\<close>

text \<open>
  A Go string is a sequence of bytes; it is modelled as a \<open>char list\<close>. Comparison of
  strings with \<open><\<close> is Go's: bytewise lexicographic, a proper prefix being smaller.

  The functions of package \<open>strings\<close> work on the UTF-8 reading of the bytes.
  \<open>strings.TrimSpace\<close> removes the leading and the trailing runes for which
  \<open>unicode.IsSpace\<close> holds; these are the 25 characters of \<open>unicodeSpaces\<close>, given by
  their UTF-8 encodings (U+0009..U+000D, U+0020, U+0085, U+00A0, U+1680, U+2000..U+200A,
  U+2028, U+2029, U+202F, U+205F, U+3000). Decoding a rune at the front of a string, or
  at its end, yields one of them exactly when the string starts, or ends, with its
  encoding; every other byte sequence, malformed ones included, is a rune that is not a
  space.

  \<open>strings.ToLower\<close> and \<open>strings.EqualFold\<close> have a path of their own for strings of
  ASCII bytes, written out below. On other strings they consult the case tables of
  package \<open>unicode\<close>, which are not part of this program: \<open>mapToLower\<close> stands for
  \<open>strings.Map(unicode.ToLower, s)\<close> and \<open>foldEqual\<close> for the comparison under simple
  case folding.
\<close>

definition hasPrefix :: "string \<Rightarrow> string \<Rightarrow> bool" where
  "hasPrefix pre s = (take (length pre) s = pre)"

definition unicodeSpaces :: "string list" where
  "unicodeSpaces =
     [[CHR 0x09], [CHR 0x0A], [CHR 0x0B], [CHR 0x0C], [CHR 0x0D], [CHR 0x20],
      [CHR 0xC2, CHR 0x85], [CHR 0xC2, CHR 0xA0],
      [CHR 0xE1, CHR 0x9A, CHR 0x80],
      [CHR 0xE2, CHR 0x80, CHR 0x80], [CHR 0xE2, CHR 0x80, CHR 0x81],
      [CHR 0xE2, CHR 0x80, CHR 0x82], [CHR 0xE2, CHR 0x80, CHR 0x83],
      [CHR 0xE2, CHR 0x80, CHR 0x84], [CHR 0xE2, CHR 0x80, CHR 0x85],
      [CHR 0xE2, CHR 0x80, CHR 0x86], [CHR 0xE2, CHR 0x80, CHR 0x87],
      [CHR 0xE2, CHR 0x80, CHR 0x88], [CHR 0xE2, CHR 0x80, CHR 0x89],
      [CHR 0xE2, CHR 0x80, CHR 0x8A],
      [CHR 0xE2, CHR 0x80, CHR 0xA8], [CHR 0xE2, CHR 0x80, CHR 0xA9],
      [CHR 0xE2, CHR 0x80, CHR 0xAF], [CHR 0xE2, CHR 0x81, CHR 0x9F],
      [CHR 0xE3, CHR 0x80, CHR 0x80]]"

text \<open>The number of bytes of the space, one of \<open>ws\<close>, that \<open>s\<close> starts with; 0 when \<open>s\<close>
  starts with none.\<close>

definition spaceWidth :: "string list \<Rightarrow> string \<Rightarrow> nat" where
  "spaceWidth ws s = (case filter (\<lambda>w. hasPrefix w s) ws of [] \<Rightarrow> 0 | w # _ \<Rightarrow> length w)"

function trimLeading :: "string list \<Rightarrow> string \<Rightarrow> string" where
  "trimLeading ws s =
     (if spaceWidth ws s = 0 \<or> s = [] then s else trimLeading ws (drop (spaceWidth ws s) s))"
  by pat_completeness auto

termination
  by (relation "measure (\<lambda>(ws, s). length s)") auto

declare trimLeading.simps [simp del]

text \<open>\<open>strings.TrimSpace\<close>: the leading spaces go first, then the trailing ones, which
  are read from the end of the string.\<close>

definition TrimSpace :: "string \<Rightarrow> string" where
  "TrimSpace s =
     rev (trimLeading (map rev unicodeSpaces) (rev (trimLeading unicodeSpaces s)))"

record unicodeTables =
  mapToLower :: "string \<Rightarrow> string"
  foldEqual :: "string \<Rightarrow> string \<Rightarrow> bool"

definition isASCII :: "string \<Rightarrow> bool" where
  "isASCII s = list_all (\<lambda>c. (of_char c :: nat) < 0x80) s"

definition lowerChar :: "char \<Rightarrow> char" where
  "lowerChar c =
     (case map_of (zip ''ABCDEFGHIJKLMNOPQRSTUVWXYZ'' ''abcdefghijklmnopqrstuvwxyz'') c of
        Some d \<Rightarrow> d
      | None \<Rightarrow> c)"

definition ToLower :: "unicodeTables \<Rightarrow> string \<Rightarrow> string" where
  "ToLower u s = (if isASCII s then map lowerChar s else mapToLower u s)"

definition EqualFold :: "unicodeTables \<Rightarrow> string \<Rightarrow> string \<Rightarrow> bool" where
  "EqualFold u s t =
     (if isASCII s \<and> isASCII t then map lowerChar s = map lowerChar t else foldEqual u s t)"

definition trimPrefix :: "string \<Rightarrow> string \<Rightarrow> string" where
  "trimPrefix pre s = (if hasPrefix pre s then drop (length pre) s else s)"

fun containsStr :: "string \<Rightarrow> string \<Rightarrow> bool" where
  "containsStr sub [] = (sub = [])"
| "containsStr sub (c # cs) = (hasPrefix sub (c # cs) \<or> containsStr sub cs)"

text \<open>\<open>strings.NewReplacer(...).Replace\<close> with one-byte patterns: each byte is replaced
  on its own.\<close>

definition replaceEach :: "(char \<times> string) list \<Rightarrow> string \<Rightarrow> string" where
  "replaceEach tab s = concat (map (\<lambda>c. case map_of tab c of Some r \<Rightarrow> r | None \<Rightarrow> [c]) s)"

fun natToDec :: "nat \<Rightarrow> string" where
  "natToDec n =
     (if n < 10 then [''0123456789'' ! n]
      else natToDec (n div 10) @ [''0123456789'' ! (n mod 10)])"

declare natToDec.simps [simp del]

definition intToDec :: "int \<Rightarrow> string" where
  "intToDec i = (if i < 0 then CHR ''-'' # natToDec (nat (- i)) else natToDec (nat i))"

section \<open>Package path/filepath on Unix\<close>

text \<open>
  The separator is \<open>/\<close> and there is no volume name. \<open>Clean\<close> is modelled on path
  elements: the library's byte loop reads one element at a time, drops empty elements and
  \<open>.\<close>, lets \<open>..\<close> remove the element written last (unless there is none, or it is a
  \<open>..\<close> kept at the front of a relative path), and writes every other element.
\<close>

datatype error = EmptyName | EscapesBase | RelError | OSError string

fun splitSep :: "string \<Rightarrow> string list" where
  "splitSep [] = [[]]"
| "splitSep (c # cs) =
     (if c = CHR ''/'' then [] # splitSep cs
      else (case splitSep cs of [] \<Rightarrow> [[c]] | e # es \<Rightarrow> (c # e) # es))"

fun joinSep :: "string list \<Rightarrow> string" where
  "joinSep [] = []"
| "joinSep [e] = e"
| "joinSep (e # es) = e @ ''/'' @ joinSep es"

fun cleanElems :: "bool \<Rightarrow> string list \<Rightarrow> string list \<Rightarrow> string list" where
  "cleanElems rooted [] out = rev out"
| "cleanElems rooted (e # es) out =
     (if e = [] \<or> e = ''.'' then cleanElems rooted es out
      else if e = ''..'' then
        (if (case out of [] \<Rightarrow> False | t # _ \<Rightarrow> t \<noteq> ''..'') then cleanElems rooted es (tl out)
         else if \<not> rooted then cleanElems rooted es (e # out)
         else cleanElems rooted es out)
      else cleanElems rooted es (e # out))"

definition IsAbs :: "string \<Rightarrow> bool" where
  "IsAbs path = hasPrefix ''/'' path"

definition Clean :: "string \<Rightarrow> string" where
  "Clean path =
     (if path = [] then ''.''
      else
        let rooted = (hd path = CHR ''/'');
            s = (if rooted then ''/'' else []) @ joinSep (cleanElems rooted (splitSep path) [])
        in if s = [] then ''.'' else s)"

definition lastElem :: "string \<Rightarrow> string" where
  "lastElem path = rev (takeWhile (\<lambda>c. c \<noteq> CHR ''/'') (rev path))"

definition Base :: "string \<Rightarrow> string" where
  "Base path =
     (if path = [] then ''.''
      else
        let e = lastElem (rev (dropWhile (\<lambda>c. c = CHR ''/'') (rev path)))
        in if e = [] then ''/'' else e)"

definition Ext :: "string \<Rightarrow> string" where
  "Ext path =
     (let e = lastElem path
      in if CHR ''.'' \<in> set e then CHR ''.'' # rev (takeWhile (\<lambda>c. c \<noteq> CHR ''.'') (rev e))
         else [])"

definition Join :: "string \<Rightarrow> string \<Rightarrow> string" where
  "Join a b =
     (if a \<noteq> [] then Clean (a @ ''/'' @ b)
      else if b \<noteq> [] then Clean b
      else [])"

text \<open>\<open>Abs\<close> asks the operating system for the working directory only when the path
  is relative; \<open>wd\<close> is what \<open>os.Getwd\<close> returns.\<close>

definition Abs :: "error + string \<Rightarrow> string \<Rightarrow> error + string" where
  "Abs wd path =
     (if IsAbs path then Inr (Clean path)
      else (case wd of Inl e \<Rightarrow> Inl e | Inr d \<Rightarrow> Inr (Join d path)))"

text \<open>The loop of \<open>Rel\<close> that walks both paths to the first differing elements. The two
  arguments are \<open>base[b0:]\<close> and \<open>targ[t0:]\<close> at the start of an iteration; the result is
  \<open>(base[b0:], base[b0:bi], targ[t0:])\<close> when the loop is left.\<close>

definition nextElem :: "string \<Rightarrow> string" where
  "nextElem s = takeWhile (\<lambda>c. c \<noteq> CHR ''/'') s"

definition afterElem :: "string \<Rightarrow> string" where
  "afterElem s = (case dropWhile (\<lambda>c. c \<noteq> CHR ''/'') s of [] \<Rightarrow> [] | _ # r \<Rightarrow> r)"

lemma length_afterElem: "s \<noteq> [] \<Longrightarrow> length (afterElem s) < length s"
proof -
  assume ne: "s \<noteq> []"
  have le: "length (dropWhile (\<lambda>c. c \<noteq> CHR ''/'') s) \<le> length s"
    by (rule length_dropWhile_le)
  show ?thesis
  proof (cases "dropWhile (\<lambda>c. c \<noteq> CHR ''/'') s")
    case Nil
    have "afterElem s = []" unfolding afterElem_def Nil by simp
    then show ?thesis using ne by simp
  next
    case (Cons a r)
    have "afterElem s = r" unfolding afterElem_def Cons by simp
    then show ?thesis using le unfolding Cons by simp
  qed
qed

function relLoop :: "string \<Rightarrow> string \<Rightarrow> string \<times> string \<times> string" where
  "relLoop b t =
     (if b \<noteq> [] \<and> t \<noteq> [] then
        (if nextElem t \<noteq> nextElem b then (b, nextElem b, t)
         else relLoop (afterElem b) (afterElem t))
      else (b, [], t))"
  by pat_completeness auto
termination
  by (relation "measure (\<lambda>(b, t). length b)") (auto simp: length_afterElem)

declare relLoop.simps [simp del]

definition Rel :: "string \<Rightarrow> string \<Rightarrow> error + string" where
  "Rel basepath targpath =
     (let base = Clean basepath; targ = Clean targpath in
      if targ = base then Inr ''.''
      else
        let base = (if base = ''.'' then [] else base);
            baseSlashed = (base \<noteq> [] \<and> hd base = CHR ''/'');
            targSlashed = (targ \<noteq> [] \<and> hd targ = CHR ''/'')
        in if baseSlashed \<noteq> targSlashed then Inl RelError
           else (case relLoop base targ of
                   (brest, belem, trest) \<Rightarrow>
                     if belem = ''..'' then Inl RelError
                     else if brest \<noteq> [] then
                       Inr (''..'' @ concat (replicate (count_list brest CHR ''/'') ''/..'')
                            @ (if trest \<noteq> [] then ''/'' @ trest else []))
                     else Inr trest))"

section \<open>Path Sanitizer and extension allowlist\<close>

definition safeJoin :: "error + string \<Rightarrow> string \<Rightarrow> string \<Rightarrow> error + string" where
  "safeJoin wd baseDir fileName =
     (if fileName = [] then Inl EmptyName
      else
        let clean = Base (Clean fileName);
            joined = Join baseDir clean
        in case Abs wd baseDir of
             Inl e \<Rightarrow> Inl e
           | Inr baseAbs \<Rightarrow>
               (case Abs wd joined of
                  Inl e \<Rightarrow> Inl e
                | Inr joinedAbs \<Rightarrow>
                    (case Rel baseAbs joinedAbs of
                       Inl e \<Rightarrow> Inl e
                     | Inr rel \<Rightarrow>
                         if hasPrefix ''../'' rel \<or> rel = ''..'' then Inl EscapesBase
                         else Inr joinedAbs)))"

definition isAllowedExt :: "unicodeTables \<Rightarrow> string \<Rightarrow> bool" where
  "isAllowedExt u name = (ToLower u (Ext name) \<in> set [''.jpg'', ''.jpeg'', ''.png'', ''.webp'', ''.gif''])"

definition urlPathEscape :: "string \<Rightarrow> string" where
  "urlPathEscape s =
     replaceEach [(CHR ''%'', ''%25''), (CHR '' '', ''%20''), (CHR ''#'', ''%23''), (CHR ''?'', ''%3F'')] s"

subsection \<open>Vocabulary of the statements on paths\<close>

text \<open>
  A path element is what stands between two separators. \<open>realElem\<close> holds of the name of
  a directory entry: not empty, no separator in it, and neither \<open>.\<close> nor \<open>..\<close>.
  \<open>isDirectChild dir p\<close> says that \<open>p\<close> is \<open>dir\<close> followed by exactly one such element, and
  \<open>childPath dir e\<close> is that path.
\<close>

definition noSep :: "string \<Rightarrow> bool" where
  "noSep e = (CHR ''/'' \<notin> set e)"

definition realElem :: "string \<Rightarrow> bool" where
  "realElem e = (e \<noteq> [] \<and> CHR ''/'' \<notin> set e \<and> e \<noteq> ''.'' \<and> e \<noteq> ''..'')"

definition okElem :: "string \<Rightarrow> bool" where
  "okElem e = (e \<noteq> [] \<and> CHR ''/'' \<notin> set e \<and> e \<noteq> ''.'')"

definition isDirectChild :: "string \<Rightarrow> string \<Rightarrow> bool" where
  "isDirectChild dir p =
     (let pre = (if dir = ''/'' then dir else dir @ ''/'');
          e = drop (length pre) p
      in hasPrefix pre p \<and> e \<noteq> [] \<and> CHR ''/'' \<notin> set e \<and> e \<noteq> ''.'' \<and> e \<noteq> ''..'')"

definition childPath :: "string \<Rightarrow> string \<Rightarrow> string" where
  "childPath dir e = (if dir = ''/'' then dir @ e else dir @ ''/'' @ e)"

text \<open>The elements of a directory's absolute path: those of the cleaned path when it is
  absolute, and those of the path below the working directory otherwise.\<close>

definition absElems :: "error + string \<Rightarrow> string \<Rightarrow> string list" where
  "absElems wd base =
     (if IsAbs base then cleanElems True (splitSep base) []
      else (case wd of
              Inl e \<Rightarrow> []
            | Inr d \<Rightarrow> cleanElems True (splitSep base) (rev (cleanElems True (splitSep d) []))))"

section \<open>Photo Scanner and Ordering\<close>

text \<open>The structs of \<open>main.go\<close>. The \<open>int64\<close> fields are integers: the program only
  copies and compares them.\<close>

record Photo =
  URL :: string
  Name :: string
  Mtime :: int
  Size :: int

record PhotosResponse =
  Photos :: "Photo list"
  Count :: nat

text \<open>What \<open>os.ReadDir\<close> lists for an entry and what \<open>os.Stat\<close> reports for a path.
  \<open>ModTime\<close> is the modification time in Unix seconds.\<close>

record DirEntry =
  EntryName :: string
  EntryIsDir :: bool

record FileInfo =
  IsDir :: bool
  FileSize :: int
  ModTime :: int

text \<open>
  A request as package \<open>net/http\<close> hands it to a handler: \<open>Path\<close> is \<open>r.URL.Path\<close>,
  \<open>RawQuery\<close> is \<open>r.URL.RawQuery\<close> and \<open>Query\<close> what \<open>r.URL.Query()\<close> parses from it (the
  key/value pairs in their order), \<open>Header\<close> maps a canonical field name to its first
  value, \<open>Cookies\<close> are the request's cookies in their order, \<open>TLS\<close> is \<open>r.TLS != nil\<close>
  and \<open>Proto11\<close> is \<open>r.ProtoAtLeast(1, 1)\<close>. \<open>URLOther\<close> holds the fields of \<open>r.URL\<close>
  other than \<open>Path\<close> and \<open>RawQuery\<close>; \<open>zeroURL\<close> is what they are in a URL built with
  \<open>&url.URL{Path: ..., RawQuery: ...}\<close>. The request line \<open>OPTIONS *\<close> is the request
  whose \<open>Path\<close> is \<open>*\<close>: its \<open>RequestURI\<close> is \<open>*\<close> and so is the path parsed from it.
\<close>

record URLFields =
  Scheme :: string
  Opaque :: string
  User :: "string option"
  Host :: string
  RawPath :: string
  OmitHost :: bool
  ForceQuery :: bool
  Fragment :: string
  RawFragment :: string

definition zeroURL :: URLFields where
  "zeroURL =
     \<lparr>Scheme = [], Opaque = [], User = None, Host = [], RawPath = [], OmitHost = False,
      ForceQuery = False, Fragment = [], RawFragment = []\<rparr>"

record Request =
  Method :: string
  Path :: string
  RawQuery :: string
  Query :: "(string \<times> string) list"
  Header :: "string \<Rightarrow> string option"
  Cookies :: "(string \<times> string) list"
  TLS :: bool
  Proto11 :: bool
  URLOther :: URLFields

text \<open>What \<open>http.ServeFile\<close> answers for a request and a file: library code, taken from
  the environment. It writes a status and a body, sets (\<open>Some\<close>) or deletes (\<open>None\<close>)
  header fields among \<open>serveFileFields\<close>, and on its error paths sets
  \<open>X-Content-Type-Options: nosniff\<close>.\<close>

record Served =
  ServedStatus :: nat
  ServedFields :: "(string \<times> string option) list"
  ServedNosniff :: bool
  ServedBody :: string

text \<open>
  The environment of the process: the operating system, the embedded \<open>static/*\<close> files
  and the library functions whose results the model does not compute.
  \<^item> \<open>getwd\<close>, \<open>readDir\<close>, \<open>stat\<close>: \<open>os.Getwd\<close>, \<open>os.ReadDir\<close>, \<open>os.Stat\<close>. They are
    independent of each other, so a file may vanish or change between its listing and
    its stat.
  \<^item> \<open>staticFS\<close>: \<open>staticFS.ReadFile\<close>, \<open>None\<close> for a path that is not an embedded file.
  \<^item> \<open>typeByExtension\<close>: \<open>mime.TypeByExtension\<close>.
  \<^item> \<open>serveFile\<close>: \<open>http.ServeFile\<close>, see \<open>Served\<close>.
  \<^item> \<open>urlString\<close>: \<open>URL.String()\<close> of the URL with the given other fields, path and raw
    query.
  \<^item> \<open>tables\<close>: the case tables of package \<open>unicode\<close>.
  \<^item> \<open>encodeQuery\<close>: \<open>url.Values.Encode\<close> of the given key/value pairs.
  \<^item> \<open>redirectTarget\<close>, \<open>redirectNote\<close>: the \<open>Location\<close> value and the short HTML body
    that \<open>http.Redirect\<close> derives from the request path, the URL and the status code.
\<close>

record sys =
  getwd :: "error + string"
  readDir :: "string \<Rightarrow> error + DirEntry list"
  stat :: "string \<Rightarrow> error + FileInfo"
  staticFS :: "string \<Rightarrow> string option"
  typeByExtension :: "string \<Rightarrow> string"
  serveFile :: "Request \<Rightarrow> string \<Rightarrow> Served"
  urlString :: "URLFields \<Rightarrow> string \<Rightarrow> string \<Rightarrow> string"
  encodeQuery :: "(string \<times> string) list \<Rightarrow> string"
  redirectTarget :: "string \<Rightarrow> string \<Rightarrow> string"
  redirectNote :: "string \<Rightarrow> string \<Rightarrow> nat \<Rightarrow> string"
  tables :: unicodeTables

text \<open>One iteration of the loop of \<open>scanPhotos\<close>: \<open>None\<close> is \<open>continue\<close>.\<close>

definition scanEntry :: "sys \<Rightarrow> string \<Rightarrow> DirEntry \<Rightarrow> Photo option" where
  "scanEntry s dir e =
     (if EntryIsDir e then None
      else
        let name = EntryName e in
        if \<not> isAllowedExt (tables s) name then None
        else (case safeJoin (getwd s) dir name of
                Inl err \<Rightarrow> None
              | Inr fullPath \<Rightarrow>
                  (case stat s fullPath of
                     Inl err \<Rightarrow> None
                   | Inr fi \<Rightarrow>
                       if IsDir fi then None
                       else
                         let mtime = ModTime fi;
                             url = ''/photos/'' @ urlPathEscape name @ ''?v='' @ intToDec mtime
                         in Some \<lparr>URL = url, Name = name, Mtime = mtime, Size = FileSize fi\<rparr>)))"

definition scanPhotos :: "sys \<Rightarrow> string \<Rightarrow> error + Photo list" where
  "scanPhotos s dir =
     (case readDir s dir of
        Inl err \<Rightarrow> Inl err
      | Inr entries \<Rightarrow> Inr (List.map_filter (scanEntry s dir) entries))"

text \<open>
  \<open>sort.Slice(photos, less)\<close> is the library's sort: it leaves a permutation of the slice
  in which no element is less (by the closure) than one before it, and promises nothing on the order
  of elements that compare equal. The model sorts by insertion with the closure the
  source passes; the theorems below claim nothing on ties.
\<close>

fun insertBy :: "('a \<Rightarrow> 'a \<Rightarrow> bool) \<Rightarrow> 'a \<Rightarrow> 'a list \<Rightarrow> 'a list" where
  "insertBy lt x [] = [x]"
| "insertBy lt x (y # ys) = (if lt x y then x # y # ys else y # insertBy lt x ys)"

definition sortSlice :: "('a \<Rightarrow> 'a \<Rightarrow> bool) \<Rightarrow> 'a list \<Rightarrow> 'a list" where
  "sortSlice lt xs = foldr (insertBy lt) xs []"

definition sortPhotos :: "unicodeTables \<Rightarrow> Photo list \<Rightarrow> string \<Rightarrow> Photo list" where
  "sortPhotos u photos order =
     (if order = ''mtime_asc'' then sortSlice (\<lambda>a b. Mtime a < Mtime b) photos
      else if order = ''name_asc'' then
        sortSlice (\<lambda>a b. ToLower u (Name a) < ToLower u (Name b)) photos
      else if order = ''name_desc'' then
        sortSlice (\<lambda>a b. ToLower u (Name a) > ToLower u (Name b)) photos
      else sortSlice (\<lambda>a b. Mtime a > Mtime b) photos)"

text \<open>The directory of the specification's example scenario, with a third photo whose
  name starts with a capital letter.\<close>

definition exPhotos :: "Photo list" where
  "exPhotos =
     [\<lparr>URL = ''/photos/a.jpg?v=100'', Name = ''a.jpg'', Mtime = 100, Size = 10\<rparr>,
      \<lparr>URL = ''/photos/C.gif?v=150'', Name = ''C.gif'', Mtime = 150, Size = 30\<rparr>,
      \<lparr>URL = ''/photos/b.png?v=200'', Name = ''b.png'', Mtime = 200, Size = 20\<rparr>]"

section \<open>Responses\<close>

text \<open>
  A \<open>ResponseWriter\<close> is the state a handler changes: the header map and the
  \<open>Set-Cookie\<close> lines it is still free to change, what \<open>WriteHeader\<close> committed (the
  status with the header and cookies as they stood then; later changes of the header do
  not reach the client), and the body written so far. The body is a list of writes; the
  document \<open>json.Encoder.Encode\<close> writes is kept as the value it encodes.
\<close>

datatype SameSite = SameSiteDefaultMode | SameSiteLaxMode | SameSiteStrictMode | SameSiteNoneMode

record Cookie =
  CookieName :: string
  CookieValue :: string
  CookiePath :: string
  MaxAge :: int
  HttpOnly :: bool
  CookieSameSite :: SameSite
  Secure :: bool

datatype Chunk = Bytes string | JSON PhotosResponse

record Writer =
  wHeader :: "string \<Rightarrow> string option"
  wCookies :: "Cookie list"
  wSent :: "(nat \<times> (string \<Rightarrow> string option) \<times> Cookie list) option"
  wBody :: "Chunk list"

record Response =
  Status :: nat
  Fields :: "string \<Rightarrow> string option"
  SetCookies :: "Cookie list"
  Body :: "Chunk list"

type_synonym Handler = "Request \<Rightarrow> Writer \<Rightarrow> Writer"

definition newWriter :: Writer where
  "newWriter = \<lparr>wHeader = Map.empty, wCookies = [], wSent = None, wBody = []\<rparr>"

definition setHeader :: "string \<Rightarrow> string \<Rightarrow> Writer \<Rightarrow> Writer" where
  "setHeader k v w = w\<lparr>wHeader := (wHeader w)(k \<mapsto> v)\<rparr>"

definition WriteHeader :: "nat \<Rightarrow> Writer \<Rightarrow> Writer" where
  "WriteHeader code w =
     (if wSent w = None then w\<lparr>wSent := Some (code, wHeader w, wCookies w)\<rparr> else w)"

definition Write :: "Chunk \<Rightarrow> Writer \<Rightarrow> Writer" where
  "Write c w = (let w' = WriteHeader 200 w in w'\<lparr>wBody := wBody w' @ [c]\<rparr>)"

text \<open>The response the client receives once the handler has returned.\<close>

definition response :: "Writer \<Rightarrow> Response" where
  "response w =
     (case wSent w of
        Some (code, h, cs) \<Rightarrow> \<lparr>Status = code, Fields = h, SetCookies = cs, Body = wBody w\<rparr>
      | None \<Rightarrow> \<lparr>Status = 200, Fields = wHeader w, SetCookies = wCookies w, Body = wBody w\<rparr>)"

text \<open>
  \<open>http.SetCookie\<close> adds the \<open>Set-Cookie\<close> line of the cookie. The value it writes is
  the sanitised one: the bytes that are not valid in a cookie value (control bytes, bytes
  from 0x7F on, the double quote, the semicolon and the backslash) are dropped, and what
  is left is put in double quotes when it holds a space or a comma. \<open>wCookies\<close> records
  the cookie with the value as it is written. The cookies of this program have a valid
  name and the path \<open>/\<close>, which are written as they are.
\<close>

definition validCookieValueByte :: "char \<Rightarrow> bool" where
  "validCookieValueByte b =
     (0x20 \<le> (of_char b :: nat) \<and> (of_char b :: nat) < 0x7F \<and>
      b \<noteq> CHR 0x22 \<and> b \<noteq> CHR 0x3B \<and> b \<noteq> CHR 0x5C)"

definition sanitizeCookieValue :: "string \<Rightarrow> string" where
  "sanitizeCookieValue v0 =
     (let v = filter validCookieValueByte v0
      in if v = [] then v
         else if CHR 0x20 \<in> set v \<or> CHR 0x2C \<in> set v then [CHR 0x22] @ v @ [CHR 0x22]
         else v)"

definition SetCookie :: "Cookie \<Rightarrow> Writer \<Rightarrow> Writer" where
  "SetCookie c w =
     w\<lparr>wCookies := wCookies w @ [c\<lparr>CookieValue := sanitizeCookieValue (CookieValue c)\<rparr>]\<rparr>"

definition headerGet :: "Request \<Rightarrow> string \<Rightarrow> string" where
  "headerGet r k = (case Header r k of Some v \<Rightarrow> v | None \<Rightarrow> [])"

definition queryGet :: "(string \<times> string) list \<Rightarrow> string \<Rightarrow> string" where
  "queryGet q k = (case map_of q k of Some v \<Rightarrow> v | None \<Rightarrow> [])"

definition queryDel :: "(string \<times> string) list \<Rightarrow> string \<Rightarrow> (string \<times> string) list" where
  "queryDel q k = filter (\<lambda>kv. fst kv \<noteq> k) q"

text \<open>\<open>http.Error\<close> and \<open>http.NotFound\<close> of Go 1.22.\<close>

definition httpError :: "string \<Rightarrow> nat \<Rightarrow> Writer \<Rightarrow> Writer" where
  "httpError msg code w =
     Write (Bytes (msg @ [CHR 0x0A]))
       (WriteHeader code
         (setHeader ''X-Content-Type-Options'' ''nosniff''
           (setHeader ''Content-Type'' ''text/plain; charset=utf-8'' w)))"

definition NotFound :: "Writer \<Rightarrow> Writer" where
  "NotFound w = httpError ''404 page not found'' 404 w"

definition httpRedirect :: "sys \<Rightarrow> Request \<Rightarrow> string \<Rightarrow> nat \<Rightarrow> Writer \<Rightarrow> Writer" where
  "httpRedirect s r url code w =
     (let hadCT = (wHeader w ''Content-Type'' \<noteq> None);
          w1 = setHeader ''Location'' (redirectTarget s (Path r) url) w;
          w2 = (if \<not> hadCT \<and> (Method r = ''GET'' \<or> Method r = ''HEAD'')
                then setHeader ''Content-Type'' ''text/html; charset=utf-8'' w1 else w1);
          w3 = WriteHeader code w2
      in if \<not> hadCT \<and> Method r = ''GET''
         then Write (Bytes (redirectNote s (Path r) url code)) w3 else w3)"

definition serveFileFields :: "string list" where
  "serveFileFields =
     [''Content-Type'', ''Content-Length'', ''Content-Range'', ''Content-Encoding'',
      ''Accept-Ranges'', ''Last-Modified'', ''Location'']"

definition putHeader :: "string \<Rightarrow> string option \<Rightarrow> Writer \<Rightarrow> Writer" where
  "putHeader k v w = w\<lparr>wHeader := (wHeader w)(k := v)\<rparr>"

definition ServeFile :: "sys \<Rightarrow> Request \<Rightarrow> string \<Rightarrow> Writer \<Rightarrow> Writer" where
  "ServeFile s r name w =
     (let sv = serveFile s r name;
          w1 = foldr (\<lambda>kv. putHeader (fst kv) (snd kv))
                 (filter (\<lambda>kv. fst kv \<in> set serveFileFields) (ServedFields sv)) w;
          w2 = (if ServedNosniff sv then setHeader ''X-Content-Type-Options'' ''nosniff'' w1
                else w1);
          w3 = WriteHeader (ServedStatus sv) w2
      in if ServedBody sv = [] then w3 else Write (Bytes (ServedBody sv)) w3)"

section \<open>HTTP Routing Layer\<close>

definition serveEmbeddedFile :: "sys \<Rightarrow> string \<Rightarrow> string \<Rightarrow> Writer \<Rightarrow> Writer" where
  "serveEmbeddedFile s path forcedContentType w =
     (case staticFS s path of
        None \<Rightarrow> NotFound w
      | Some b \<Rightarrow>
          let w1 =
                (if forcedContentType \<noteq> [] then setHeader ''Content-Type'' forcedContentType w
                 else
                   let ct = typeByExtension s (ToLower (tables s) (Ext path)) in
                   if ct \<noteq> [] then setHeader ''Content-Type'' ct w
                   else setHeader ''Content-Type'' ''application/octet-stream'' w);
              w2 =
                (if hasPrefix ''static/'' path \<and> path \<noteq> ''static/index.html''
                    \<and> path \<noteq> ''static/info.html''
                 then setHeader ''Cache-Control'' ''public, max-age=86400'' w1
                 else setHeader ''Cache-Control'' ''no-store'' w1)
          in Write (Bytes b) w2)"

definition rootHandler :: "sys \<Rightarrow> Handler" where
  "rootHandler s r w =
     (if Path r \<noteq> ''/'' then NotFound w
      else serveEmbeddedFile s ''static/index.html'' ''text/html; charset=utf-8'' w)"

definition infoHandler :: "sys \<Rightarrow> Handler" where
  "infoHandler s r w =
     (if Path r \<noteq> ''/info'' then NotFound w
      else if Method r \<noteq> ''GET'' then
        httpError ''method not allowed'' 405 (setHeader ''Allow'' ''GET'' w)
      else serveEmbeddedFile s ''static/info.html'' ''text/html; charset=utf-8'' w)"

definition staticHandler :: "sys \<Rightarrow> Handler" where
  "staticHandler s r w =
     (let path = trimPrefix ''/'' (Path r) in
      if \<not> hasPrefix ''static/'' path then NotFound w
      else serveEmbeddedFile s path [] w)"

definition apiPhotosHandler :: "sys \<Rightarrow> string \<Rightarrow> Handler" where
  "apiPhotosHandler s absPhotosDir r w =
     (if Method r \<noteq> ''GET'' then
        httpError ''method not allowed'' 405 (setHeader ''Allow'' ''GET'' w)
      else
        (case scanPhotos s absPhotosDir of
           Inl err \<Rightarrow> httpError ''failed to scan photos directory'' 500 w
         | Inr photos \<Rightarrow>
             let order = queryGet (Query r) ''order'';
                 photos' = sortPhotos (tables s) photos order;
                 resp = \<lparr>Photos = photos', Count = length photos'\<rparr>
             in Write (JSON resp)
                  (setHeader ''Cache-Control'' ''no-store''
                    (setHeader ''Content-Type'' ''application/json; charset=utf-8'' w))))"

definition photosHandler :: "sys \<Rightarrow> string \<Rightarrow> Handler" where
  "photosHandler s absPhotosDir r w =
     (if Method r \<noteq> ''GET'' \<and> Method r \<noteq> ''HEAD'' then
        httpError ''method not allowed'' 405 (setHeader ''Allow'' ''GET, HEAD'' w)
      else
        let name = trimPrefix ''/photos/'' (Path r) in
        if name = [] then NotFound w
        else if CHR ''/'' \<in> set name \<or> CHR 0x5C \<in> set name then NotFound w
        else if \<not> isAllowedExt (tables s) name then NotFound w
        else
          (case safeJoin (getwd s) absPhotosDir name of
             Inl err \<Rightarrow> NotFound w
           | Inr fullPath \<Rightarrow>
               (case stat s fullPath of
                  Inl err \<Rightarrow> NotFound w
                | Inr fi \<Rightarrow>
                    if IsDir fi then NotFound w
                    else
                      let ct = typeByExtension s (ToLower (tables s) (Ext name));
                          w1 = (if ct \<noteq> [] then setHeader ''Content-Type'' ct w else w);
                          w2 = setHeader ''Cache-Control''
                                 ''public, max-age=31536000, immutable'' w1
                      in ServeFile s r fullPath w2)))"

definition healthzHandler :: Handler where
  "healthzHandler r w =
     Write (Bytes ''ok'')
       (WriteHeader 200 (setHeader ''Content-Type'' ''text/plain; charset=utf-8'' w))"

text \<open>
  \<open>http.ServeMux\<close> of Go 1.22 with the six patterns registered in \<open>main\<close>, none of them
  with a method or a host. The model reads \<open>r.URL.Path\<close> where the library reads the
  escaped path, so it is the library's routing for paths that need no escaping:
  the request \<open>*\<close> is answered 400; a path that is not clean (except for \<open>CONNECT\<close>) and
  the paths \<open>/static\<close> and \<open>/photos\<close> are answered by a 301 redirect; every other request
  goes to the handler of the most specific pattern that matches, \<open>/\<close> matching every
  path that starts with a slash.
\<close>

definition cleanPath :: "string \<Rightarrow> string" where
  "cleanPath p0 =
     (if p0 = [] then ''/''
      else
        let p = (if hd p0 \<noteq> CHR ''/'' then CHR ''/'' # p0 else p0);
            np = Clean p
        in if last p = CHR ''/'' \<and> np \<noteq> ''/'' then
             (if length p = length np + 1 \<and> hasPrefix np p then p else np @ ''/'')
           else np)"

definition mux :: "sys \<Rightarrow> string \<Rightarrow> Handler" where
  "mux s absPhotosDir r w =
     (if Path r = ''*'' then
        WriteHeader 400 (if Proto11 r then setHeader ''Connection'' ''close'' w else w)
      else
        let connect = (Method r = ''CONNECT'');
            p = (if connect then Path r else cleanPath (Path r))
        in if p = ''/static'' \<or> p = ''/photos'' then
             httpRedirect s r (urlString s zeroURL (cleanPath (Path r) @ ''/'') (RawQuery r)) 301 w
           else if \<not> connect \<and> p \<noteq> Path r then
             httpRedirect s r (urlString s zeroURL p (RawQuery r)) 301 w
           else if p = ''/healthz'' then healthzHandler r w
           else if p = ''/info'' then infoHandler s r w
           else if p = ''/api/photos'' then apiPhotosHandler s absPhotosDir r w
           else if hasPrefix ''/static/'' p then staticHandler s r w
           else if hasPrefix ''/photos/'' p then photosHandler s absPhotosDir r w
           else if hasPrefix ''/'' p then rootHandler s r w
           else NotFound w)"

section \<open>Security Headers\<close>

definition joinWith :: "string \<Rightarrow> string list \<Rightarrow> string" where
  "joinWith sep xs = (case xs of [] \<Rightarrow> [] | x # rest \<Rightarrow> x @ concat (map (\<lambda>y. sep @ y) rest))"

definition self :: string where
  "self = [CHR 0x27] @ ''self'' @ [CHR 0x27]"

definition contentSecurityPolicy :: string where
  "contentSecurityPolicy =
     joinWith ''; ''
       [''default-src '' @ self, ''img-src '' @ self @ '' data:'', ''style-src '' @ self,
        ''script-src '' @ self]"

definition securityHeaders :: "Handler \<Rightarrow> Handler" where
  "securityHeaders next r w =
     next r
       (setHeader ''Content-Security-Policy'' contentSecurityPolicy
         (setHeader ''Permissions-Policy'' ''geolocation=(), microphone=(), camera=()''
           (setHeader ''Referrer-Policy'' ''no-referrer''
             (setHeader ''X-Frame-Options'' ''DENY''
               (setHeader ''X-Content-Type-Options'' ''nosniff'' w)))))"

section \<open>Auth Gate\<close>

definition authCookieName :: string where
  "authCookieName = ''frameserve_auth''"

definition authCookieMaxAgeSeconds :: int where
  "authCookieMaxAgeSeconds = 365 * 24 * 60 * 60"

definition constantTimeEqual :: "string \<Rightarrow> string \<Rightarrow> bool" where
  "constantTimeEqual a b = (if length a \<noteq> length b then False else a = b)"

definition parseBearer :: "unicodeTables \<Rightarrow> string \<Rightarrow> string" where
  "parseBearer u authz0 =
     (let authz = TrimSpace authz0 in
      if authz = [] then []
      else if CHR '' '' \<notin> set authz then []
      else
        let part0 = takeWhile (\<lambda>c. c \<noteq> CHR '' '') authz;
            part1 = tl (dropWhile (\<lambda>c. c \<noteq> CHR '' '') authz)
        in if ToLower u (TrimSpace part0) \<noteq> ''bearer'' then [] else TrimSpace part1)"

definition firstNonEmpty :: "string \<Rightarrow> string \<Rightarrow> string" where
  "firstNonEmpty a b = (if TrimSpace a \<noteq> [] then a else b)"

definition isProbablyHTTPS :: "unicodeTables \<Rightarrow> Request \<Rightarrow> bool" where
  "isProbablyHTTPS u r =
     (if TLS r then True
      else if EqualFold u (headerGet r ''X-Forwarded-Proto'') ''https'' then True
      else False)"

definition htmlEscape :: "string \<Rightarrow> string" where
  "htmlEscape s =
     replaceEach
       [(CHR ''&'', ''&amp;''), (CHR ''<'', ''&lt;''), (CHR ''>'', ''&gt;''),
        (CHR 0x22, ''&quot;''), (CHR 0x27, ''&#39;'')] s"

definition setAuthCookie :: "unicodeTables \<Rightarrow> Request \<Rightarrow> string \<Rightarrow> Writer \<Rightarrow> Writer" where
  "setAuthCookie u r token w =
     (let secure = isProbablyHTTPS u r in
      SetCookie
        \<lparr>CookieName = authCookieName, CookieValue = token, CookiePath = ''/'',
         MaxAge = authCookieMaxAgeSeconds, HttpOnly = True,
         CookieSameSite = SameSiteLaxMode, Secure = secure\<rparr> w)"

definition unauthorizedPageHead :: string where
  \<open>unauthorizedPageHead =
     ''<!doctype html>\<newline>'' @
     ''<html lang="en">\<newline>'' @
     ''<head>\<newline>'' @
     ''  <meta charset="utf-8"/>\<newline>'' @
     ''  <meta name="viewport" content="width=device-width,initial-scale=1"/>\<newline>'' @
     ''  <title>Frameserve - Unauthorized</title>\<newline>'' @
     ''  <style>\<newline>'' @
     ''    :root{color-scheme:dark}\<newline>'' @
     ''    body{margin:0;padding:24px;background:#000;color:#fff;font-family:system-ui,-apple-system,Segoe UI,Roboto,Arial,sans-serif;line-height:1.5}\<newline>'' @
     ''    code{font-family:ui-monospace,SFMono-Regular,Menlo,Monaco,Consolas,"Liberation Mono","Courier New",monospace}\<newline>'' @
     ''    .card{max-width:920px;margin:0 auto;background:rgba(255,255,255,0.06);border:1px solid rgba(255,255,255,0.10);border-radius:14px;padding:16px 18px}\<newline>'' @
     ''    a{color:#9ad1ff;text-decoration:none} a:hover{text-decoration:underline}\<newline>'' @
     ''  </style>\<newline>'' @
     ''</head>\<newline>'' @
     ''<body>\<newline>'' @
     ''  <div class="card">\<newline>'' @
     ''    <h1>Unauthorized</h1>\<newline>'' @
     ''    <p>This Frameserve instance requires a shared access token.</p>\<newline>'' @
     ''    <p><strong>One-time setup on this device:</strong></p>\<newline>'' @
     ''    <p>Open this URL once (replace <code>YOURTOKEN</code>):</p>\<newline>'' @
     ''    <p><code>''\<close>

definition unauthorizedPageTail :: string where
  \<open>unauthorizedPageTail =
     ''?token=YOURTOKEN</code></p>\<newline>'' @
     ''    <p>After that, the device will stay logged in via a long-lived cookie.</p>\<newline>'' @
     ''    <p class="muted">If you cleared cookies or switched browsers, repeat the one-time setup.</p>\<newline>'' @
     ''  </div>\<newline>'' @
     ''</body>\<newline>'' @
     ''</html>''\<close>

definition unauthorized :: Handler where
  "unauthorized r w =
     Write (Bytes (unauthorizedPageHead @ htmlEscape (Path r) @ unauthorizedPageTail))
       (WriteHeader 401
         (setHeader ''Content-Type'' ''text/html; charset=utf-8''
           (setHeader ''Cache-Control'' ''no-store'' w)))"

definition authMiddleware :: "sys \<Rightarrow> string \<Rightarrow> Handler \<Rightarrow> Handler" where
  "authMiddleware s token next r w =
     (if Path r = ''/healthz'' then next r w
      else
        let q = Query r;
            provided = firstNonEmpty (queryGet q ''token'') (queryGet q ''t'')
        in if provided \<noteq> [] \<and> constantTimeEqual token provided then
             (let cq = queryDel (queryDel q ''token'') ''t'';
                  cleanURL = urlString s (URLOther r) (Path r) (encodeQuery s cq)
              in httpRedirect s r cleanURL 302 (setAuthCookie (tables s) r token w))
           else if (case map_of (Cookies r) authCookieName of
                      Some v \<Rightarrow> constantTimeEqual token v
                    | None \<Rightarrow> False) then next r w
           else
             let bearer = parseBearer (tables s) (headerGet r ''Authorization'') in
             if bearer \<noteq> [] \<and> constantTimeEqual token bearer then next r w
             else unauthorized r w)"

section \<open>Configuration and the server\<close>

record Config =
  port :: string
  absPhotosDir :: string
  authToken :: string

definition osGetenv :: "(string \<Rightarrow> string option) \<Rightarrow> string \<Rightarrow> string" where
  "osGetenv environ k = (case environ k of Some v \<Rightarrow> v | None \<Rightarrow> [])"

definition getenv :: "(string \<Rightarrow> string option) \<Rightarrow> string \<Rightarrow> string \<Rightarrow> string" where
  "getenv environ k def = (let v = TrimSpace (osGetenv environ k) in if v = [] then def else v)"

text \<open>The start of \<open>main\<close>: \<open>Inl\<close> is \<open>log.Fatalf\<close>, the process exits.\<close>

definition loadConfig :: "error + string \<Rightarrow> (string \<Rightarrow> string option) \<Rightarrow> error + Config" where
  "loadConfig wd environ =
     (let p = getenv environ ''PORT'' ''80'';
          photosDir = getenv environ ''PHOTOS_DIR'' ''/photos'';
          tok = TrimSpace (osGetenv environ ''AUTH_TOKEN'')
      in case Abs wd photosDir of
           Inl err \<Rightarrow> Inl err
         | Inr d \<Rightarrow> Inr \<lparr>port = p, absPhotosDir = d, authToken = tok\<rparr>)"

definition server :: "sys \<Rightarrow> Config \<Rightarrow> Handler" where
  "server s cfg =
     (let handler = securityHeaders (mux s (absPhotosDir cfg))
      in if authToken cfg \<noteq> [] then authMiddleware s (authToken cfg) handler else handler)"

text \<open>The server \<open>main\<close> starts: the address it listens on and its handler.\<close>

definition main :: "sys \<Rightarrow> (string \<Rightarrow> string option) \<Rightarrow> error + string \<times> Handler" where
  "main s environ =
     (case loadConfig (getwd s) environ of
        Inl err \<Rightarrow> Inl err
      | Inr cfg \<Rightarrow> Inr ('':'' @ port cfg, server s cfg))"



section \<open>Vocabulary of the statements\<close>

text \<open>The extensions of the image formats, and the extension of a name in lower case:
  what follows the last dot of its last element, the dot included.\<close>

definition imageExts :: "string list" where
  "imageExts = [''.jpg'', ''.jpeg'', ''.png'', ''.webp'', ''.gif'']"

definition lowerExt :: "sys \<Rightarrow> string \<Rightarrow> string" where
  "lowerExt s name = ToLower (tables s) (Ext name)"

text \<open>A listed entry that the scan keeps: not a directory when listed, a lower-cased
  extension among the five, and a stat of its path in the directory that succeeds on a
  non-directory.\<close>

definition kept :: "sys \<Rightarrow> string \<Rightarrow> DirEntry \<Rightarrow> bool" where
  "kept s dir e =
     (\<not> EntryIsDir e \<and> lowerExt s (EntryName e) \<in> set imageExts \<and>
      (case stat s (childPath (Clean dir) (EntryName e)) of
         Inl err \<Rightarrow> False
       | Inr fi \<Rightarrow> \<not> IsDir fi))"










section \<open>An example environment\<close>

text \<open>
  A photos directory with three photos, one of them with an upper-case name, a text
  file, a directory with an image name, an entry that has vanished when it is stat'ed
  and one that has become a directory; and simple stand-ins for the library functions.
  The names, paths and header values of the examples are ASCII, so the case tables are
  not consulted; their stand-ins leave a string as it is and compare bytes.
\<close>

definition exEntries :: "DirEntry list" where
  "exEntries =
     [\<lparr>EntryName = ''a.jpg'', EntryIsDir = False\<rparr>,
      \<lparr>EntryName = ''b.png'', EntryIsDir = False\<rparr>,
      \<lparr>EntryName = ''IMG.JPG'', EntryIsDir = False\<rparr>,
      \<lparr>EntryName = ''c.txt'', EntryIsDir = False\<rparr>,
      \<lparr>EntryName = ''album.jpg'', EntryIsDir = True\<rparr>,
      \<lparr>EntryName = ''gone.gif'', EntryIsDir = False\<rparr>,
      \<lparr>EntryName = ''turned.webp'', EntryIsDir = False\<rparr>]"

definition exStat :: "string \<Rightarrow> error + FileInfo" where
  "exStat p =
     (if p = ''/photos/a.jpg'' then Inr \<lparr>IsDir = False, FileSize = 10, ModTime = 100\<rparr>
      else if p = ''/photos/b.png'' then Inr \<lparr>IsDir = False, FileSize = 20, ModTime = 200\<rparr>
      else if p = ''/photos/IMG.JPG'' then Inr \<lparr>IsDir = False, FileSize = 40, ModTime = 400\<rparr>
      else if p = ''/photos/c.txt'' then Inr \<lparr>IsDir = False, FileSize = 5, ModTime = 300\<rparr>
      else if p = ''/photos'' \<or> p = ''/photos/album.jpg'' \<or> p = ''/photos/turned.webp''
        then Inr \<lparr>IsDir = True, FileSize = 4096, ModTime = 50\<rparr>
      else Inl (OSError ''no such file or directory''))"

definition exSys :: sys where
  "exSys =
     \<lparr>getwd = Inr ''/'',
      readDir = (\<lambda>d. if d = ''/photos'' then Inr exEntries
                     else Inl (OSError ''no such file or directory'')),
      stat = exStat,
      staticFS = (\<lambda>p. if p = ''static/index.html'' then Some ''<html>slideshow</html>''
                      else if p = ''static/info.html'' then Some ''<html>info</html>''
                      else if p = ''static/app.js'' then Some ''// app''
                      else None),
      typeByExtension = (\<lambda>e. if e = ''.jpg'' then ''image/jpeg''
                             else if e = ''.png'' then ''image/png''
                             else if e = ''.js'' then ''text/javascript; charset=utf-8''
                             else []),
      serveFile = (\<lambda>r name.
         \<lparr>ServedStatus = 200,
          ServedFields = [(''Content-Length'', Some ''8''), (''Accept-Ranges'', Some ''bytes'')],
          ServedNosniff = False,
          ServedBody = (if Method r = ''HEAD'' then [] else ''JPEGDATA'')\<rparr>),
      urlString = (\<lambda>u p q. (if Host u = [] then [] else Scheme u @ ''://'' @ Host u) @
                              (if RawPath u = [] then p else RawPath u) @
                              (if q = [] then [] else ''?'' @ q)),
      encodeQuery = (\<lambda>kvs. joinWith ''&'' (map (\<lambda>kv. fst kv @ ''='' @ snd kv) kvs)),
      redirectTarget = (\<lambda>old url. url),
      redirectNote = (\<lambda>old url code. ''<a href='' @ url @ ''>'' @ natToDec code @ ''</a>''),
      tables = \<lparr>mapToLower = (\<lambda>s. s), foldEqual = (\<lambda>s t. s = t)\<rparr>\<rparr>"



definition exRequest :: "string \<Rightarrow> string \<Rightarrow> (string \<times> string) list \<Rightarrow> Request" where
  "exRequest m p q =
     \<lparr>Method = m, Path = p, RawQuery = encodeQuery exSys q, Query = q, Header = Map.empty,
      Cookies = [], TLS = False, Proto11 = True, URLOther = zeroURL\<rparr>"







definition exTraversalReq :: "string \<Rightarrow> Request" where
  "exTraversalReq m = exRequest m ''/photos/../secret.jpg'' []"






definition exBlank :: "string list" where
  "exBlank = [[CHR 0x20], [CHR 0xC2, CHR 0xA0], [CHR 0x09], [CHR 0xE3, CHR 0x80, CHR 0x80]]"

section \<open>Strings: white space\<close>

lemma trimLeading_Nil [simp]: "trimLeading ws [] = []"
  by (simp add: trimLeading.simps)

lemma TrimSpace_Nil [simp]: "TrimSpace [] = []"
  by (simp add: TrimSpace_def)

lemma hasPrefix_append_cases:
  "hasPrefix w' (w @ rest) \<Longrightarrow> hasPrefix w' w \<or> hasPrefix w w'"
  unfolding hasPrefix_def
  by (cases "length w' \<le> length w") (auto simp: take_append dest: arg_cong [where f = "take (length w)"])

lemma unicodeSpaces_prefix_free:
  "list_all (\<lambda>w. list_all (\<lambda>w'. (hasPrefix w' w \<or> hasPrefix w w') = (w' = w)) unicodeSpaces)
     unicodeSpaces"
  by code_simp

lemma spaceWidth_space:
  assumes w: "w \<in> set unicodeSpaces"
  shows "spaceWidth unicodeSpaces (w @ rest) = length w"
proof -
  define m where "m = filter (\<lambda>w'. hasPrefix w' (w @ rest)) unicodeSpaces"
  have "hasPrefix w (w @ rest)" by (simp add: hasPrefix_def)
  then have "w \<in> set m" using w by (simp add: m_def)
  moreover have "w' = w" if "w' \<in> set m" for w'
  proof -
    have "w' \<in> set unicodeSpaces" "hasPrefix w' (w @ rest)" using that by (simp_all add: m_def)
    then show ?thesis
      using hasPrefix_append_cases [of w' w rest] unicodeSpaces_prefix_free w
      unfolding list_all_iff by blast
  qed
  ultimately obtain ms where "m = w # ms" by (cases m) auto
  then show ?thesis unfolding spaceWidth_def m_def [symmetric] by simp
qed

lemma trimLeading_space:
  assumes "w \<in> set unicodeSpaces"
  shows "trimLeading unicodeSpaces (w @ rest) = trimLeading unicodeSpaces rest"
proof -
  have "w \<noteq> []" using assms unfolding unicodeSpaces_def by auto
  then show ?thesis
    using spaceWidth_space [OF assms, of rest]
    by (subst trimLeading.simps) simp
qed

lemma trimLeading_spaces:
  "set ws \<subseteq> set unicodeSpaces \<Longrightarrow> trimLeading unicodeSpaces (concat ws) = []"
  by (induction ws) (simp_all add: trimLeading_space)

lemma TrimSpace_blank: "set ws \<subseteq> set unicodeSpaces \<Longrightarrow> TrimSpace (concat ws) = []"
  by (simp add: TrimSpace_def trimLeading_spaces)

lemma trimLeading_done:
  "spaceWidth ws (trimLeading ws s) = 0 \<or> trimLeading ws s = []"
  by (induction ws s rule: trimLeading.induct) (subst (1 2) trimLeading.simps, simp)

lemma trimLeading_idem: "trimLeading ws (trimLeading ws s) = trimLeading ws s"
  using trimLeading_done [of ws s] by (subst trimLeading.simps) auto

lemma trimLeading_suffix: "\<exists>p. s = p @ trimLeading ws s"
proof (induction ws s rule: trimLeading.induct)
  case (1 ws s)
  show ?case
  proof (cases "spaceWidth ws s = 0 \<or> s = []")
    case True
    then show ?thesis by (subst trimLeading.simps) simp
  next
    case False
    then obtain p where "drop (spaceWidth ws s) s = p @ trimLeading ws (drop (spaceWidth ws s) s)"
      using 1 by blast
    then have "s = (take (spaceWidth ws s) s @ p) @ trimLeading ws (drop (spaceWidth ws s) s)"
      by (metis append_take_drop_id append.assoc)
    moreover have "trimLeading ws s = trimLeading ws (drop (spaceWidth ws s) s)"
      using False by (subst trimLeading.simps) simp
    ultimately show ?thesis by metis
  qed
qed

lemma spaceWidth_zero:
  "[] \<notin> set ws \<Longrightarrow> (spaceWidth ws s = 0) = (\<forall>w\<in>set ws. \<not> hasPrefix w s)"
proof -
  assume ne: "[] \<notin> set ws"
  show ?thesis
  proof (cases "filter (\<lambda>w. hasPrefix w s) ws")
    case Nil
    then show ?thesis unfolding spaceWidth_def by (simp add: filter_empty_conv)
  next
    case (Cons w m)
    then have "w \<in> set (filter (\<lambda>w. hasPrefix w s) ws)" by simp
    then have "w \<in> set ws" "hasPrefix w s" by simp_all
    moreover have "w \<noteq> []" using ne \<open>w \<in> set ws\<close> by auto
    ultimately show ?thesis unfolding spaceWidth_def Cons by auto
  qed
qed

lemma TrimSpace_idem: "TrimSpace (TrimSpace s) = TrimSpace s"
proof -
  define t where "t = trimLeading unicodeSpaces s"
  define u where "u = TrimSpace s"
  have u: "rev u = trimLeading (map rev unicodeSpaces) (rev t)"
    by (simp add: u_def TrimSpace_def t_def)
  obtain p where "rev t = p @ rev u" using trimLeading_suffix [of "rev t" "map rev unicodeSpaces"]
    unfolding u by blast
  then have tu: "t = u @ rev p" by (metis rev_append rev_rev_ident)
  have ne: "[] \<notin> set unicodeSpaces" unfolding unicodeSpaces_def by simp
  have lead: "trimLeading unicodeSpaces u = u"
  proof (cases "u = []")
    case True
    then show ?thesis by simp
  next
    case False
    then have "t \<noteq> []" using tu by simp
    then have "spaceWidth unicodeSpaces t = 0" using trimLeading_done [of unicodeSpaces s]
      by (simp add: t_def)
    then have no: "\<forall>w\<in>set unicodeSpaces. \<not> hasPrefix w t" using spaceWidth_zero [OF ne] by simp
    have "\<not> hasPrefix w u" if "w \<in> set unicodeSpaces" for w
    proof
      assume "hasPrefix w u"
      then have "hasPrefix w t" unfolding hasPrefix_def tu
        by (metis append_eq_conv_conj append.assoc append_take_drop_id)
      then show False using no that by blast
    qed
    then have "spaceWidth unicodeSpaces u = 0" using spaceWidth_zero [OF ne] by simp
    then show ?thesis by (subst trimLeading.simps) simp
  qed
  have "TrimSpace u = rev (trimLeading (map rev unicodeSpaces) (rev u))"
    by (simp add: TrimSpace_def lead)
  also have "\<dots> = rev (rev u)" unfolding u trimLeading_idem ..
  also have "\<dots> = u" by simp
  finally show ?thesis unfolding u_def .
qed

section \<open>Path Sanitizer\<close>
lemma splitSep_ne: "splitSep s \<noteq> []"
  by (induction s) (auto split: list.splits)
lemma splitSep_noSep: "noSep s \<Longrightarrow> splitSep s = [s]"
  by (induction s) (auto simp: noSep_def)
lemma splitSep_append: "splitSep (a @ CHR ''/'' # b) = splitSep a @ splitSep b"
  by (induction a) (auto split: list.splits simp: splitSep_ne)
lemma splitSep_elems_noSep: "e \<in> set (splitSep s) \<Longrightarrow> noSep e"
  by (induction s arbitrary: e) (auto simp: noSep_def split: list.splits if_splits)
lemma cleanElems_skip:
  "e = [] \<or> e = ''.'' \<Longrightarrow> cleanElems r (e # es) out = cleanElems r es out"
  by auto
lemma cleanElems_push:
  "realElem e \<Longrightarrow> cleanElems r (e # es) out = cleanElems r es (e # out)"
  unfolding realElem_def by simp
lemma cleanElems_pop:
  "t \<noteq> ''..'' \<Longrightarrow> cleanElems r (''..'' # es) (t # ts) = cleanElems r es ts"
  by simp
lemma cleanElems_dotdot_root:
  "cleanElems True (''..'' # es) [] = cleanElems True es []"
  by simp
lemma cleanElems_dotdot_rel_nil:
  "cleanElems False (''..'' # es) [] = cleanElems False es [''..'']"
  by simp
lemma cleanElems_dotdot_rel_dd:
  "cleanElems False (''..'' # es) (''..'' # ts) = cleanElems False es (''..'' # ''..'' # ts)"
  by simp
lemma elem_cases:
  "noSep e \<Longrightarrow> e = [] \<or> e = ''.'' \<or> e = ''..'' \<or> realElem e"
  unfolding realElem_def noSep_def by blast
declare cleanElems.simps(2) [simp del]
lemma cleanElems_append:
  "cleanElems r (xs @ ys) out = cleanElems r ys (rev (cleanElems r xs out))"
proof (induction xs arbitrary: out r)
  case Nil
  show ?case by simp
next
  case (Cons x xs)
  show ?case unfolding append_Cons
    by (subst (1 2) cleanElems.simps(2)) (simp add: Cons.IH)
qed
lemma cleanElems_real:
  "\<forall>e\<in>set xs. realElem e \<Longrightarrow> cleanElems r xs out = rev out @ xs"
  by (induction xs arbitrary: out) (simp_all add: cleanElems_push)
lemma cleanElems_rooted_real:
  "\<forall>e\<in>set xs. noSep e \<Longrightarrow> \<forall>e\<in>set out. realElem e \<Longrightarrow>
   \<forall>e\<in>set (cleanElems True xs out). realElem e"
proof (induction xs arbitrary: out)
  case Nil
  then show ?case by simp
next
  case (Cons x xs)
  have ns: "\<forall>e\<in>set xs. noSep e" and nx: "noSep x" using Cons.prems(1) by simp_all
  consider "x = [] \<or> x = ''.''" | "x = ''..''" | "realElem x"
    using elem_cases [OF nx] by blast
  then show ?case
  proof cases
    case 1
    then show ?thesis using Cons.IH [OF ns Cons.prems(2)] by (simp add: cleanElems_skip)
  next
    case 2
    show ?thesis
    proof (cases out)
      case Nil
      then show ?thesis using Cons.IH [OF ns Cons.prems(2)] 2 by (simp add: cleanElems_dotdot_root)
    next
      case (Cons t ts)
      have t: "t \<noteq> ''..''" and ts: "\<forall>e\<in>set ts. realElem e"
        using Cons.prems(2) Cons by (auto simp: realElem_def)
      show ?thesis using Cons.IH [OF ns ts] 2 Cons t by (simp add: cleanElems_pop)
    qed
  next
    case 3
    have "\<forall>e\<in>set (x # out). realElem e" using 3 Cons.prems(2) by simp
    from Cons.IH [OF ns this] show ?thesis using 3 by (simp add: cleanElems_push)
  qed
qed
lemma okElem_cases: "okElem e \<Longrightarrow> e = ''..'' \<or> realElem e"
  unfolding okElem_def realElem_def by blast
lemma realElem_ok: "realElem e \<Longrightarrow> okElem e"
  unfolding okElem_def realElem_def by blast
lemma cleanElems_ok:
  "\<forall>e\<in>set xs. noSep e \<Longrightarrow> \<forall>e\<in>set out. okElem e \<Longrightarrow>
   \<forall>e\<in>set (cleanElems r xs out). okElem e"
proof (induction xs arbitrary: out)
  case Nil
  then show ?case by simp
next
  case (Cons x xs)
  have ns: "\<forall>e\<in>set xs. noSep e" and nx: "noSep x" using Cons.prems(1) by simp_all
  have tl: "\<forall>e\<in>set (tl out). okElem e" using Cons.prems(2) by (cases out) auto
  have push: "\<forall>e\<in>set (x # out). okElem e" if "okElem x" using that Cons.prems(2) by simp
  have dd: "okElem ''..''" by (simp add: okElem_def)
  consider "x = [] \<or> x = ''.''" | "x = ''..''" | "realElem x"
    using elem_cases [OF nx] by blast
  then show ?case
  proof cases
    case 1
    then show ?thesis using Cons.IH [OF ns Cons.prems(2)] by (simp add: cleanElems_skip)
  next
    case 2
    have okx: "okElem x" using 2 dd by simp
    show ?thesis
      apply (subst cleanElems.simps(2))
      using Cons.IH [OF ns Cons.prems(2)] Cons.IH [OF ns tl] Cons.IH [OF ns push [OF okx]]
      by (simp add: 2)
  next
    case 3
    from Cons.IH [OF ns push [OF realElem_ok [OF 3]]] show ?thesis
      using 3 by (simp add: cleanElems_push)
  qed
qed
lemma joinSep_snoc:
  "joinSep (xs @ [c]) = (if xs = [] then c else joinSep xs @ CHR ''/'' # c)"
  by (induction xs rule: joinSep.induct) auto
lemma joinSep_Cons:
  "joinSep (x # xs) = (if xs = [] then x else x @ CHR ''/'' # joinSep xs)"
  by (cases xs) auto
lemma joinSep_nonempty: "xs \<noteq> [] \<Longrightarrow> \<forall>e\<in>set xs. e \<noteq> [] \<Longrightarrow> joinSep xs \<noteq> []"
  by (cases xs) (auto simp: joinSep_Cons)
lemma splitSep_joinSep:
  "xs \<noteq> [] \<Longrightarrow> \<forall>e\<in>set xs. noSep e \<Longrightarrow> splitSep (joinSep xs) = xs"
proof (induction xs rule: joinSep.induct)
  case 1
  then show ?case by simp
next
  case (2 e)
  then show ?case by (simp add: splitSep_noSep)
next
  case (3 e v va)
  have "splitSep (e @ CHR ''/'' # joinSep (v # va)) = splitSep e @ splitSep (joinSep (v # va))"
    by (rule splitSep_append)
  then show ?case using 3 by (simp add: splitSep_noSep)
qed
lemma Clean_rooted:
  "path \<noteq> [] \<Longrightarrow> hd path = CHR ''/'' \<Longrightarrow>
   Clean path = CHR ''/'' # joinSep (cleanElems True (splitSep path) [])"
  by (simp add: Clean_def)
lemma rootedElems_real:
  "\<forall>e\<in>set (cleanElems True (splitSep path) []). realElem e"
  using cleanElems_rooted_real [of "splitSep path" "[]"] splitSep_elems_noSep by simp
lemma realElems_noSep: "\<forall>e\<in>set xs. realElem e \<Longrightarrow> \<forall>e\<in>set xs. noSep e"
  by (simp add: realElem_def noSep_def)
lemma cleanElems_splitSep_rooted_join:
  assumes real: "\<forall>e\<in>set xs. realElem e"
  shows "cleanElems True (splitSep (CHR ''/'' # joinSep xs)) [] = xs"
proof (cases "xs = []")
  case True
  then show ?thesis by (simp add: cleanElems_skip)
next
  case False
  have "splitSep (CHR ''/'' # joinSep xs) = [] # xs"
    using splitSep_joinSep [OF False realElems_noSep [OF real]] by simp
  then show ?thesis using cleanElems_real [OF real, of True "[]"] by (simp add: cleanElems_skip)
qed
lemma Clean_idem_rooted:
  assumes real: "\<forall>e\<in>set xs. realElem e"
  shows "Clean (CHR ''/'' # joinSep xs) = CHR ''/'' # joinSep xs"
proof -
  have "Clean (CHR ''/'' # joinSep xs) =
      CHR ''/'' # joinSep (cleanElems True (splitSep (CHR ''/'' # joinSep xs)) [])"
    by (rule Clean_rooted) simp_all
  also have "\<dots> = CHR ''/'' # joinSep xs"
    by (simp only: cleanElems_splitSep_rooted_join [OF real])
  finally show ?thesis .
qed
lemma joinSep_last:
  assumes "xs \<noteq> []"
  shows "joinSep xs =
    (if butlast xs = [] then last xs else joinSep (butlast xs) @ CHR ''/'' # last xs)"
proof -
  have "joinSep (butlast xs @ [last xs]) =
    (if butlast xs = [] then last xs else joinSep (butlast xs) @ CHR ''/'' # last xs)"
    by (rule joinSep_snoc)
  then show ?thesis using assms by simp
qed
lemma takeWhile_noSep: "noSep e \<Longrightarrow> takeWhile (\<lambda>c. c \<noteq> CHR ''/'') e = e"
  by (induction e) (auto simp: noSep_def)
lemma dropWhile_noSep: "noSep e \<Longrightarrow> dropWhile (\<lambda>c. c \<noteq> CHR ''/'') e = []"
  by (induction e) (auto simp: noSep_def)
lemma noSep_rev: "noSep (rev e) = noSep e"
  by (simp add: noSep_def)
lemma lastElem_noSep: "noSep e \<Longrightarrow> lastElem e = e"
  by (simp add: lastElem_def takeWhile_noSep noSep_rev)
lemma lastElem_suffix: "noSep e \<Longrightarrow> lastElem (p @ CHR ''/'' # e) = e"
proof -
  assume ns: "noSep e"
  have "takeWhile (\<lambda>c. c \<noteq> CHR ''/'') (rev e @ CHR ''/'' # rev p) =
      takeWhile (\<lambda>c. c \<noteq> CHR ''/'') (rev e)"
    by (rule takeWhile_tail) simp
  also have "\<dots> = rev e" using ns by (simp add: takeWhile_noSep noSep_rev)
  finally show ?thesis by (simp add: lastElem_def)
qed
lemma strip_trailing_none:
  assumes "e \<noteq> []" "noSep e"
  shows "rev (dropWhile (\<lambda>c. c = CHR ''/'') (rev (p @ e))) = p @ e"
proof -
  obtain a as where r: "rev e = a # as" using assms(1) by (cases "rev e") auto
  have "a \<in> set e" using r by (metis list.set_intros(1) set_rev)
  then have "a \<noteq> CHR ''/''" using assms(2) by (auto simp: noSep_def)
  then have "dropWhile (\<lambda>c. c = CHR ''/'') (rev (p @ e)) = rev (p @ e)"
    using r by simp
  then show ?thesis by simp
qed
lemma Base_elem: "e \<noteq> [] \<Longrightarrow> noSep e \<Longrightarrow> Base e = e"
  using strip_trailing_none [of e "[]"] by (simp add: Base_def lastElem_noSep)
lemma Base_suffix: "e \<noteq> [] \<Longrightarrow> noSep e \<Longrightarrow> Base (p @ CHR ''/'' # e) = e"
  using strip_trailing_none [of e "p @ ''/''"] by (simp add: Base_def lastElem_suffix)
lemma Base_joinSep:
  assumes ne: "xs \<noteq> []" and ok: "\<forall>e\<in>set xs. okElem e"
  shows "Base (joinSep xs) = last xs" and "Base (CHR ''/'' # joinSep xs) = last xs"
proof -
  have l: "okElem (last xs)" using ne ok by simp
  then have l1: "last xs \<noteq> []" and l2: "noSep (last xs)" by (simp_all add: okElem_def noSep_def)
  show "Base (joinSep xs) = last xs"
    using Base_elem [OF l1 l2] Base_suffix [OF l1 l2] by (simp add: joinSep_last [OF ne])
  have "Base (CHR ''/'' # last xs) = last xs" using Base_suffix [OF l1 l2, of "[]"] by simp
  moreover have "Base (CHR ''/'' # joinSep (butlast xs) @ CHR ''/'' # last xs) = last xs"
    using Base_suffix [OF l1 l2, of "CHR ''/'' # joinSep (butlast xs)"] by simp
  ultimately show "Base (CHR ''/'' # joinSep xs) = last xs"
    by (simp add: joinSep_last [OF ne])
qed
lemma Base_Clean_cases:
  assumes "name \<noteq> []"
  shows "Base (Clean name) = ''/'' \<or> Base (Clean name) = ''.'' \<or> Base (Clean name) = ''..''
     \<or> realElem (Base (Clean name))"
proof -
  define r where "r = (hd name = CHR ''/'')"
  define xs where "xs = cleanElems r (splitSep name) []"
  have ok: "\<forall>e\<in>set xs. okElem e"
    unfolding xs_def using cleanElems_ok [of "splitSep name" "[]" r] splitSep_elems_noSep by simp
  have cl: "Clean name = (let s = (if r then ''/'' else []) @ joinSep xs in if s = [] then ''.'' else s)"
    using assms by (simp add: Clean_def r_def xs_def)
  show ?thesis
  proof (cases "xs = []")
    case True
    then have "Clean name = ''/'' \<or> Clean name = ''.''" using cl by (cases r) simp_all
    then show ?thesis by (auto simp: Base_def lastElem_def)
  next
    case False
    have jn: "joinSep xs \<noteq> []"
      using joinSep_nonempty [OF False] ok by (simp add: okElem_def)
    have "Clean name = joinSep xs \<or> Clean name = CHR ''/'' # joinSep xs"
      using cl jn by (cases r) simp_all
    then have "Base (Clean name) = last xs" using Base_joinSep [OF False ok] by auto
    moreover have "okElem (last xs)" using False ok by simp
    ultimately show ?thesis using okElem_cases by auto
  qed
qed
lemma nextElem_noSep: "noSep e \<Longrightarrow> nextElem e = e"
  by (simp add: nextElem_def takeWhile_noSep)
lemma afterElem_noSep: "noSep e \<Longrightarrow> afterElem e = []"
  by (simp add: afterElem_def dropWhile_noSep)
lemma nextElem_sep: "noSep e \<Longrightarrow> nextElem (e @ CHR ''/'' # rest) = e"
  unfolding nextElem_def by (induction e) (auto simp: noSep_def)
lemma afterElem_sep: "noSep e \<Longrightarrow> afterElem (e @ CHR ''/'' # rest) = rest"
  unfolding afterElem_def by (induction e) (auto simp: noSep_def)
lemma relLoop_Nil_left: "relLoop [] t = ([], [], t)"
  by (simp add: relLoop.simps)
lemma relLoop_Nil_right: "relLoop b [] = (b, [], [])"
  by (simp add: relLoop.simps)
lemma relLoop_child:
  assumes "\<forall>e\<in>set bs. e \<noteq> [] \<and> noSep e"
  shows "relLoop (joinSep bs) (joinSep (bs @ [c])) = ([], [], c)"
  using assms
proof (induction bs rule: joinSep.induct)
  case 1
  show ?case by (simp add: relLoop_Nil_left)
next
  case (2 e)
  then have e: "e \<noteq> []" "noSep e" by simp_all
  show ?case
    apply (subst relLoop.simps)
    using e by (simp add: nextElem_noSep nextElem_sep afterElem_noSep afterElem_sep relLoop_Nil_left)
next
  case (3 e v va)
  then have e: "e \<noteq> []" "noSep e" by simp_all
  have ih: "relLoop (joinSep (v # va)) (joinSep ((v # va) @ [c])) = ([], [], c)"
    using 3 by simp
  show ?case
    apply (subst relLoop.simps)
    using e ih by (simp add: nextElem_sep afterElem_sep)
qed
lemma relLoop_parent:
  assumes "\<forall>e\<in>set xs. e \<noteq> [] \<and> noSep e" "x \<noteq> []" "noSep x"
  shows "relLoop (joinSep (xs @ [x])) (joinSep xs) = (x, [], [])"
  using assms
proof (induction xs rule: joinSep.induct)
  case 1
  show ?case by (simp add: relLoop_Nil_right)
next
  case (2 e)
  then have e: "e \<noteq> []" "noSep e" by simp_all
  show ?case
    apply (subst relLoop.simps)
    using e by (simp add: nextElem_noSep nextElem_sep afterElem_noSep afterElem_sep relLoop_Nil_right)
next
  case (3 e v va)
  then have e: "e \<noteq> []" "noSep e" by simp_all
  have ih: "relLoop (joinSep ((v # va) @ [x])) (joinSep (v # va)) = (x, [], [])"
    using 3 by simp
  show ?case
    apply (subst relLoop.simps)
    using e ih by (simp add: nextElem_sep afterElem_sep)
qed
lemma nextElem_slash: "nextElem (CHR ''/'' # s) = []"
  by (simp add: nextElem_def)
lemma afterElem_slash: "afterElem (CHR ''/'' # s) = s"
  by (simp add: afterElem_def)
lemma relLoop_rooted:
  "relLoop (CHR ''/'' # b) (CHR ''/'' # t) = relLoop b t"
  by (subst relLoop.simps) (simp add: nextElem_slash afterElem_slash)
lemma real_ne_noSep: "\<forall>e\<in>set xs. realElem e \<Longrightarrow> \<forall>e\<in>set xs. e \<noteq> [] \<and> noSep e"
  by (simp add: realElem_def noSep_def)
lemma joinSep_snoc_neq:
  assumes "c \<noteq> []"
  shows "joinSep (bs @ [c]) \<noteq> joinSep bs"
proof -
  have "length (joinSep (bs @ [c])) > length (joinSep bs)"
    using assms by (cases "bs = []") (simp_all add: joinSep_snoc)
  then show ?thesis by auto
qed
lemma Rel_child:
  assumes real: "\<forall>e\<in>set bs. realElem e" and c: "realElem c"
  shows "Rel (CHR ''/'' # joinSep bs) (CHR ''/'' # joinSep (bs @ [c])) = Inr c"
proof -
  have real': "\<forall>e\<in>set (bs @ [c]). realElem e" using real c by simp
  have cb: "Clean (CHR ''/'' # joinSep bs) = CHR ''/'' # joinSep bs"
    by (rule Clean_idem_rooted [OF real])
  have ct: "Clean (CHR ''/'' # joinSep (bs @ [c])) = CHR ''/'' # joinSep (bs @ [c])"
    by (rule Clean_idem_rooted [OF real'])
  have ne: "joinSep (bs @ [c]) \<noteq> joinSep bs"
    using c by (intro joinSep_snoc_neq) (simp add: realElem_def)
  have loop: "relLoop (CHR ''/'' # joinSep bs) (CHR ''/'' # joinSep (bs @ [c])) = ([], [], c)"
    using relLoop_child [OF real_ne_noSep [OF real]] by (simp only: relLoop_rooted)
  show ?thesis
    unfolding Rel_def cb ct Let_def using ne loop by simp
qed
lemma Rel_parent:
  assumes real: "\<forall>e\<in>set xs. realElem e" and x: "realElem x"
  shows "Rel (CHR ''/'' # joinSep (xs @ [x])) (CHR ''/'' # joinSep xs) = Inr ''..''"
proof -
  have real': "\<forall>e\<in>set (xs @ [x]). realElem e" using real x by simp
  have cb: "Clean (CHR ''/'' # joinSep (xs @ [x])) = CHR ''/'' # joinSep (xs @ [x])"
    by (rule Clean_idem_rooted [OF real'])
  have ct: "Clean (CHR ''/'' # joinSep xs) = CHR ''/'' # joinSep xs"
    by (rule Clean_idem_rooted [OF real])
  have x': "x \<noteq> []" "noSep x" using x by (simp_all add: realElem_def noSep_def)
  have ne: "joinSep xs \<noteq> joinSep (xs @ [x])"
    using joinSep_snoc_neq [OF x'(1), of xs] by simp
  have loop: "relLoop (CHR ''/'' # joinSep (xs @ [x])) (CHR ''/'' # joinSep xs) = (x, [], [])"
    using relLoop_parent [OF real_ne_noSep [OF real] x'] by (simp only: relLoop_rooted)
  have cnt: "count_list x CHR ''/'' = 0" using x'(2) by (simp add: noSep_def)
  have xdd: "x \<noteq> ''..''" using x by (simp add: realElem_def)
  show ?thesis
    unfolding Rel_def cb ct Let_def using ne loop cnt x'(1) by simp
qed
lemma Rel_same: "Rel p p = Inr ''.''"
  by (simp add: Rel_def)
lemma IsAbs_iff: "IsAbs p \<longleftrightarrow> p \<noteq> [] \<and> hd p = CHR ''/''"
  by (cases p) (simp_all add: IsAbs_def hasPrefix_def)
lemma Join_abs:
  assumes ab: "IsAbs base"
  shows "Join base c =
    CHR ''/'' # joinSep (cleanElems True (splitSep c) (rev (cleanElems True (splitSep base) [])))"
proof -
  have b: "base \<noteq> []" "hd base = CHR ''/''" using ab by (simp_all add: IsAbs_iff)
  have "Join base c = Clean (base @ CHR ''/'' # c)" using b by (simp add: Join_def)
  also have "\<dots> = CHR ''/'' # joinSep (cleanElems True (splitSep (base @ CHR ''/'' # c)) [])"
    using b by (intro Clean_rooted) simp_all
  also have "splitSep (base @ CHR ''/'' # c) = splitSep base @ splitSep c"
    by (rule splitSep_append)
  finally show ?thesis by (simp only: cleanElems_append)
qed
lemma splitSep_slash: "splitSep ''/'' = [[], []]"
  by simp
lemma splitSep_dot: "splitSep ''.'' = [''.'']"
  by simp
lemma splitSep_dotdot: "splitSep ''..'' = [''..'']"
  by simp
lemma realElem_noSep: "realElem c \<Longrightarrow> noSep c"
  by (simp add: realElem_def noSep_def)
lemma Clean_abs:
  assumes "IsAbs base"
  shows "Clean base = CHR ''/'' # joinSep (cleanElems True (splitSep base) [])"
  using assms by (intro Clean_rooted) (simp_all add: IsAbs_iff)
lemma IsAbs_rooted: "IsAbs (CHR ''/'' # s)"
  by (simp add: IsAbs_iff)
lemma not_escape_real: "realElem c \<Longrightarrow> \<not> hasPrefix ''../'' c \<and> c \<noteq> ''..''"
proof -
  assume c: "realElem c"
  have "CHR ''/'' \<in> set c" if "hasPrefix ''../'' c"
  proof -
    have "take (length ''../'') c = ''../''" using that unfolding hasPrefix_def .
    then have "CHR ''/'' \<in> set (take (length ''../'') c)" by simp
    then show ?thesis by (rule in_set_takeD)
  qed
  then show ?thesis using c by (auto simp: realElem_def)
qed
lemma isDirectChild_child:
  assumes real: "\<forall>e\<in>set bs. realElem e" and c: "realElem c"
  shows "isDirectChild (CHR ''/'' # joinSep bs) (CHR ''/'' # joinSep (bs @ [c]))"
proof (cases "bs = []")
  case True
  then show ?thesis using c by (simp add: isDirectChild_def hasPrefix_def realElem_def)
next
  case False
  have "joinSep bs \<noteq> []" using joinSep_nonempty [OF False] real by (simp add: realElem_def)
  then show ?thesis using c False
    by (simp add: isDirectChild_def hasPrefix_def realElem_def joinSep_snoc)
qed
lemma childPath_rooted:
  assumes real: "\<forall>e\<in>set bs. realElem e"
  shows "childPath (CHR ''/'' # joinSep bs) c = CHR ''/'' # joinSep (bs @ [c])"
proof (cases "bs = []")
  case True
  then show ?thesis by (simp add: childPath_def)
next
  case False
  have "joinSep bs \<noteq> []" using joinSep_nonempty [OF False] real by (simp add: realElem_def)
  then show ?thesis using False by (simp add: childPath_def joinSep_snoc)
qed
lemma Base_Clean_Nil: "Base (Clean []) = ''.''"
  by (simp add: Clean_def Base_def lastElem_def)

lemma cleanElems_dotdots:
  "\<forall>e\<in>set S. realElem e \<Longrightarrow>
   cleanElems True (replicate k ''..'' @ ys) S = cleanElems True ys (drop k S)"
proof (induction k arbitrary: S)
  case 0
  show ?case by simp
next
  case (Suc k)
  show ?case
  proof (cases S)
    case Nil
    then show ?thesis using Suc.IH [of "[]"] by (simp add: cleanElems_dotdot_root)
  next
    case (Cons t ts)
    then have t: "t \<noteq> ''..''" and ts: "\<forall>e\<in>set ts. realElem e"
      using Suc.prems by (auto simp: realElem_def)
    show ?thesis using Suc.IH [OF ts] Cons t by (simp add: cleanElems_pop)
  qed
qed

lemma cleanElems_False_dotdot_push:
  "cleanElems False (''..'' # es) (replicate k ''..'') = cleanElems False es (replicate (Suc k) ''..'')"
  by (cases k) (simp_all add: cleanElems_dotdot_rel_nil cleanElems_dotdot_rel_dd)

lemma cleanElems_compose:
  assumes "\<forall>e\<in>set xs. noSep e" "\<forall>e\<in>set rs. realElem e" "\<forall>e\<in>set S. realElem e"
  shows "cleanElems True (cleanElems False xs (rs @ replicate k ''..'')) S =
         cleanElems True xs (rs @ drop k S)"
  using assms
proof (induction xs arbitrary: rs k)
  case Nil
  have "cleanElems True (replicate k ''..'' @ rev rs) S = cleanElems True (rev rs) (drop k S)"
    by (rule cleanElems_dotdots [OF Nil.prems(3)])
  also have "\<dots> = rev (drop k S) @ rev rs"
    using Nil.prems(2) by (intro cleanElems_real) simp
  finally show ?case by simp
next
  case (Cons x xs)
  note real_rs = Cons.prems(2) and real_S = Cons.prems(3)
  have ns: "\<forall>e\<in>set xs. noSep e" and nx: "noSep x" using Cons.prems(1) by simp_all
  note IH = Cons.IH [OF ns _ real_S]
  consider (skip) "x = [] \<or> x = ''.''" | (up) "x = ''..''" | (elem) "realElem x"
    using elem_cases [OF nx] by blast
  then show ?case
  proof cases
    case skip
    then show ?thesis using IH [OF real_rs, of k] by (simp add: cleanElems_skip)
  next
    case up
    show ?thesis
    proof (cases rs)
      case no_rs: Nil
      have l: "cleanElems False (x # xs) (rs @ replicate k ''..'') =
          cleanElems False xs ([] @ replicate (Suc k) ''..'')"
        unfolding up no_rs using cleanElems_False_dotdot_push [of xs k] by simp
      have r: "cleanElems True (x # xs) (rs @ drop k S) = cleanElems True xs ([] @ drop (Suc k) S)"
      proof (cases "drop k S")
        case bottom: Nil
        then have "drop (Suc k) S = []" by (metis drop_Suc tl_drop list.sel(2))
        then show ?thesis using bottom no_rs up by (simp add: cleanElems_dotdot_root)
      next
        case top: (Cons t ts)
        then have "t \<in> set S" by (metis in_set_dropD list.set_intros(1))
        then have t: "t \<noteq> ''..''" using real_S by (auto simp: realElem_def)
        have "drop (Suc k) S = ts" using top by (metis drop_Suc tl_drop list.sel(3))
        then show ?thesis using top no_rs up t by (simp add: cleanElems_pop)
      qed
      show ?thesis unfolding l r by (rule IH) simp
    next
      case some_rs: (Cons r rs0)
      then have r: "r \<noteq> ''..''" and rs0: "\<forall>e\<in>set rs0. realElem e"
        using real_rs by (auto simp: realElem_def)
      show ?thesis unfolding up some_rs using IH [OF rs0, of k] r by (simp add: cleanElems_pop)
    qed
  next
    case elem
    have "\<forall>e\<in>set (x # rs). realElem e" using elem real_rs by simp
    from IH [OF this, of k] show ?thesis using elem by (simp add: cleanElems_push)
  qed
qed

lemma okElems_joinSep_eq_Nil:
  assumes "\<forall>e\<in>set ys. okElem e"
  shows "joinSep ys = [] \<longleftrightarrow> ys = []"
  using joinSep_nonempty [of ys] assms by (auto simp: okElem_def)

lemma relElems_ok: "\<forall>e\<in>set (cleanElems r (splitSep q) []). okElem e"
  using cleanElems_ok [of "splitSep q" "[]" r] splitSep_elems_noSep by simp

lemma Clean_relative:
  assumes "q \<noteq> []" "hd q \<noteq> CHR ''/''"
  shows "Clean q =
    (if cleanElems False (splitSep q) [] = [] then ''.''
     else joinSep (cleanElems False (splitSep q) []))"
  using assms okElems_joinSep_eq_Nil [OF relElems_ok, of False q] by (simp add: Clean_def)

lemma joinSep_hd:
  assumes "ys \<noteq> []" "\<forall>e\<in>set ys. okElem e"
  shows "hd (joinSep ys) \<noteq> CHR ''/''"
proof -
  obtain y rest where ys: "ys = y # rest" using assms(1) by (cases ys) auto
  then have y: "y \<noteq> []" "CHR ''/'' \<notin> set y" using assms(2) by (auto simp: okElem_def)
  then have "hd y \<noteq> CHR ''/''" by (cases y) auto
  then show ?thesis using ys y(1) by (simp add: joinSep_Cons)
qed

lemma Clean_relative_not_abs:
  assumes "\<not> IsAbs q"
  shows "\<not> IsAbs (Clean q)"
proof (cases "q = []")
  case True
  then show ?thesis by (simp add: Clean_def IsAbs_iff)
next
  case False
  then have h: "hd q \<noteq> CHR ''/''" using assms by (simp add: IsAbs_iff)
  show ?thesis
  proof (cases "cleanElems False (splitSep q) [] = []")
    case True
    then show ?thesis using Clean_relative [OF False h] by (simp add: IsAbs_iff)
  next
    case ne: False
    have "hd (Clean q) \<noteq> CHR ''/''"
      using Clean_relative [OF False h] ne joinSep_hd [OF ne relElems_ok] by simp
    then show ?thesis by (simp add: IsAbs_iff)
  qed
qed

lemma okElems_noSep: "\<forall>e\<in>set ys. okElem e \<Longrightarrow> \<forall>e\<in>set ys. noSep e"
  by (simp add: okElem_def noSep_def)

lemma cleanElems_Clean_relative:
  assumes rel: "\<not> IsAbs q" and S: "\<forall>e\<in>set S. realElem e"
  shows "cleanElems True (splitSep (Clean q)) S = cleanElems True (splitSep q) S"
proof (cases "q = []")
  case True
  then show ?thesis by (simp add: Clean_def cleanElems_skip)
next
  case False
  then have h: "hd q \<noteq> CHR ''/''" using rel by (simp add: IsAbs_iff)
  define ys where "ys = cleanElems False (splitSep q) []"
  have ns: "\<forall>e\<in>set (splitSep q). noSep e" using splitSep_elems_noSep by blast
  have comp: "cleanElems True ys S = cleanElems True (splitSep q) S"
    unfolding ys_def using cleanElems_compose [OF ns _ S, of "[]" 0] by simp
  show ?thesis
  proof (cases "ys = []")
    case True
    then have "Clean q = ''.''" using Clean_relative [OF False h] by (simp add: ys_def)
    then show ?thesis using comp True by (simp add: cleanElems_skip)
  next
    case ne: False
    have "Clean q = joinSep ys" using Clean_relative [OF False h] ne by (simp add: ys_def)
    moreover have "splitSep (joinSep ys) = ys"
      using ne relElems_ok [of False q] by (intro splitSep_joinSep okElems_noSep) (simp_all add: ys_def)
    ultimately show ?thesis using comp by simp
  qed
qed

lemma elems_last_cases:
  assumes real: "\<forall>e\<in>set B. realElem e"
  shows "c = ''/'' \<or> c = ''.'' \<Longrightarrow> cleanElems True (splitSep c) (rev B) = B"
    and "c = ''..'' \<Longrightarrow> cleanElems True (splitSep c) (rev B) = butlast B"
    and "realElem c \<Longrightarrow> cleanElems True (splitSep c) (rev B) = B @ [c]"
proof -
  show "cleanElems True (splitSep c) (rev B) = B" if "c = ''/'' \<or> c = ''.''"
    using that by (auto simp: cleanElems_skip)
  show "cleanElems True (splitSep c) (rev B) = butlast B" if "c = ''..''"
  proof (cases "rev B")
    case Nil
    then show ?thesis using that by (simp add: cleanElems_dotdot_root)
  next
    case (Cons t ts)
    then have "t \<in> set B" by (metis list.set_intros(1) set_rev)
    then have t: "t \<noteq> ''..''" using real by (auto simp: realElem_def)
    have "B = rev ts @ [t]" using Cons by (metis rev.simps(2) rev_rev_ident)
    then have "butlast B = rev ts" by simp
    then show ?thesis using that Cons t by (simp add: cleanElems_pop)
  qed
  show "cleanElems True (splitSep c) (rev B) = B @ [c]" if "realElem c"
    using that by (simp add: splitSep_noSep [OF realElem_noSep] cleanElems_push)
qed

lemma elems_last_real:
  assumes real: "\<forall>e\<in>set B. realElem e"
  shows "\<forall>e\<in>set (cleanElems True (splitSep c) (rev B)). realElem e"
  using cleanElems_rooted_real [of "splitSep c" "rev B"] real splitSep_elems_noSep by simp

lemma safeJoin_core:
  assumes ne: "name \<noteq> []"
    and absb: "Abs wd base = Inr (CHR ''/'' # joinSep B)"
    and real: "\<forall>e\<in>set B. realElem e"
    and absj: "Abs wd (Join base (Base (Clean name))) =
        Inr (CHR ''/'' # joinSep (cleanElems True (splitSep (Base (Clean name))) (rev B)))"
  defines "c \<equiv> Base (Clean name)"
  shows "c = ''/'' \<or> c = ''.'' \<Longrightarrow> safeJoin wd base name = Inr (CHR ''/'' # joinSep B)"
    and "c = ''..'' \<Longrightarrow> B = [] \<Longrightarrow> safeJoin wd base name = Inr (CHR ''/'' # joinSep B)"
    and "c = ''..'' \<Longrightarrow> B \<noteq> [] \<Longrightarrow> safeJoin wd base name = Inl EscapesBase"
    and "realElem c \<Longrightarrow> safeJoin wd base name = Inr (CHR ''/'' # joinSep (B @ [c]))"
proof -
  have sj: "safeJoin wd base name =
      (case Rel (CHR ''/'' # joinSep B) (CHR ''/'' # joinSep ys) of
         Inl e \<Rightarrow> Inl e
       | Inr rel \<Rightarrow> if hasPrefix ''../'' rel \<or> rel = ''..'' then Inl EscapesBase
                    else Inr (CHR ''/'' # joinSep ys))"
    if "cleanElems True (splitSep c) (rev B) = ys" for ys
    unfolding safeJoin_def Let_def using ne absb absj that by (simp add: c_def)
  note E = elems_last_cases [OF real, of c]
  show "safeJoin wd base name = Inr (CHR ''/'' # joinSep B)" if "c = ''/'' \<or> c = ''.''"
    using sj [OF E(1) [OF that]] by (simp add: Rel_same hasPrefix_def)
  show "safeJoin wd base name = Inr (CHR ''/'' # joinSep B)" if "c = ''..''" "B = []"
    using sj [OF E(2) [OF that(1)]] that(2) by (simp add: Rel_same hasPrefix_def)
  show "safeJoin wd base name = Inl EscapesBase" if "c = ''..''" "B \<noteq> []"
  proof -
    have bl: "\<forall>e\<in>set (butlast B). realElem e" using real by (meson in_set_butlastD)
    have l: "realElem (last B)" using real that(2) by simp
    have "Rel (CHR ''/'' # joinSep (butlast B @ [last B])) (CHR ''/'' # joinSep (butlast B)) = Inr ''..''"
      by (rule Rel_parent [OF bl l])
    then have "Rel (CHR ''/'' # joinSep B) (CHR ''/'' # joinSep (butlast B)) = Inr ''..''"
      using that(2) by simp
    then show ?thesis using sj [OF E(2) [OF that(1)]] by simp
  qed
  show "safeJoin wd base name = Inr (CHR ''/'' # joinSep (B @ [c]))" if "realElem c"
    using sj [OF E(3) [OF that]] Rel_child [OF real that] not_escape_real [OF that]
    by simp
qed

lemma absElems_real: "\<forall>e\<in>set (absElems wd base). realElem e"
proof -
  have "\<forall>e\<in>set (cleanElems True (splitSep base) (rev (cleanElems True (splitSep d) []))). realElem e" for d
    using cleanElems_rooted_real [of "splitSep base" "rev (cleanElems True (splitSep d) [])"]
      rootedElems_real [of d] splitSep_elems_noSep by simp
  then show ?thesis
    using rootedElems_real [of base] by (auto simp: absElems_def split: sum.splits)
qed

lemma Abs_elems:
  assumes wdok: "IsAbs base \<or> (\<forall>d. wd = Inr d \<longrightarrow> IsAbs d)"
  shows "Abs wd base =
    (if IsAbs base then Inr (CHR ''/'' # joinSep (absElems wd base))
     else (case wd of Inl e \<Rightarrow> Inl e | Inr d \<Rightarrow> Inr (CHR ''/'' # joinSep (absElems wd base))))"
proof (cases "IsAbs base")
  case True
  then show ?thesis by (simp add: Abs_def absElems_def Clean_abs)
next
  case False
  show ?thesis
  proof (cases wd)
    case (Inl e)
    then show ?thesis using False by (simp add: Abs_def)
  next
    case (Inr d)
    then have d: "IsAbs d" using wdok False by simp
    show ?thesis using False Inr Join_abs [OF d, of base] by (simp add: Abs_def absElems_def)
  qed
qed

lemma splitSep_Nil: "splitSep [] = [[]]"
  by simp

lemma cleanElems_skip_nil: "cleanElems r ([] # es) out = cleanElems r es out"
  by (rule cleanElems_skip) simp

lemma cleanElems_skip_dot: "cleanElems r (''.'' # es) out = cleanElems r es out"
  by (rule cleanElems_skip) simp

lemma last_elem_not_abs:
  assumes "c = ''/'' \<or> c = ''.'' \<or> c = ''..'' \<or> realElem c"
  shows "c \<noteq> []" and "c \<noteq> ''/'' \<Longrightarrow> \<not> IsAbs c"
proof -
  show "c \<noteq> []" using assms by (auto simp: realElem_def)
  show "\<not> IsAbs c" if "c \<noteq> ''/''"
  proof -
    have "hd c \<noteq> CHR ''/''" if "realElem c" using that by (cases c) (auto simp: realElem_def)
    then show ?thesis using assms \<open>c \<noteq> ''/''\<close> by (auto simp: IsAbs_iff)
  qed
qed

lemma Abs_joined:
  assumes wdok: "IsAbs base \<or> (\<forall>d. wd = Inr d \<longrightarrow> IsAbs d)"
    and ok: "Abs wd base = Inr b"
    and cc: "c = ''/'' \<or> c = ''.'' \<or> c = ''..'' \<or> realElem c"
    and nsp: "\<not> (base = [] \<and> c = ''/'' \<and> absElems wd base \<noteq> [])"
  shows "Abs wd (Join base c) =
     Inr (CHR ''/'' # joinSep (cleanElems True (splitSep c) (rev (absElems wd base))))"
proof (cases "IsAbs base")
  case True
  have real: "\<forall>e\<in>set (cleanElems True (splitSep c) (rev (cleanElems True (splitSep base) []))). realElem e"
    by (rule elems_last_real [OF rootedElems_real])
  show ?thesis
    using True Clean_idem_rooted [OF real]
    by (simp add: Join_abs [OF True] Abs_def IsAbs_rooted absElems_def)
next
  case False
  then obtain d where wd: "wd = Inr d" using ok by (cases wd) (simp_all add: Abs_def)
  then have d: "IsAbs d" using wdok False by simp
  define ds where "ds = cleanElems True (splitSep d) []"
  have dsr: "\<forall>e\<in>set (rev ds). realElem e" unfolding ds_def using rootedElems_real [of d] by simp
  have B: "absElems wd base = cleanElems True (splitSep base) (rev ds)"
    using False wd by (simp add: absElems_def ds_def)
  note c = last_elem_not_abs [OF cc]
  show ?thesis
  proof (cases "base = [] \<and> c = ''/''")
    case True
    then have e: "absElems wd base = []" using nsp by blast
    have j: "Join base c = ''/''" using True by (simp add: Join_def Clean_def cleanElems_skip_nil)
    have a: "Abs wd ''/'' = Inr ''/''"
      by (simp add: Abs_def IsAbs_iff Clean_def cleanElems_skip_nil)
    have "cleanElems True (splitSep ''/'') [] = []" by (simp add: cleanElems_skip_nil)
    then show ?thesis unfolding j a e using True by simp
  next
    case nspecial: False
    define b' where "b' = (if base \<noteq> [] then base @ CHR ''/'' # c else c)"
    have j: "Join base c = Clean b'" using c(1) by (simp add: Join_def b'_def)
    have rel: "\<not> IsAbs b'"
    proof (cases "base = []")
      case True
      then have "c \<noteq> ''/''" using nspecial by simp
      then show ?thesis using True c(2) by (simp add: b'_def)
    next
      case False
      then show ?thesis using \<open>\<not> IsAbs base\<close> by (simp add: b'_def IsAbs_iff)
    qed
    have sp: "cleanElems True (splitSep b') (rev ds) = cleanElems True (splitSep c) (rev (absElems wd base))"
    proof (cases "base = []")
      case True
      then show ?thesis unfolding B by (simp add: b'_def cleanElems_skip_nil)
    next
      case False
      have "splitSep (base @ CHR ''/'' # c) = splitSep base @ splitSep c" by (rule splitSep_append)
      then show ?thesis using False unfolding B by (simp add: b'_def cleanElems_append)
    qed
    have "Abs wd (Join base c) = Inr (Join d (Clean b'))"
      using Clean_relative_not_abs [OF rel] wd by (simp add: j Abs_def)
    also have "Join d (Clean b') = CHR ''/'' # joinSep (cleanElems True (splitSep (Clean b')) (rev ds))"
      unfolding ds_def by (rule Join_abs [OF d])
    also have "cleanElems True (splitSep (Clean b')) (rev ds) = cleanElems True (splitSep b') (rev ds)"
      by (rule cleanElems_Clean_relative [OF rel dsr])
    finally show ?thesis unfolding sp .
  qed
qed

lemma dotdots_escape:
  "''..'' @ concat (replicate n ''/..'') = ''..'' \<or>
   hasPrefix ''../'' (''..'' @ concat (replicate n ''/..''))"
  by (cases n) (simp_all add: hasPrefix_def)

lemma Rel_to_root:
  assumes real: "\<forall>e\<in>set B. realElem e" and ne: "B \<noteq> []"
  shows "\<exists>n. Rel (CHR ''/'' # joinSep B) ''/'' = Inr (''..'' @ concat (replicate n ''/..''))"
proof -
  have cb: "Clean (CHR ''/'' # joinSep B) = CHR ''/'' # joinSep B"
    by (rule Clean_idem_rooted [OF real])
  have cr: "Clean ''/'' = ''/''" by (simp add: Clean_def cleanElems_skip_nil)
  have jn: "joinSep B \<noteq> []" using joinSep_nonempty [OF ne] real by (simp add: realElem_def)
  have loop: "relLoop (CHR ''/'' # joinSep B) ''/'' = (joinSep B, [], [])"
    using relLoop_rooted [of "joinSep B" "[]"] by (simp add: relLoop_Nil_right)
  have "Rel (CHR ''/'' # joinSep B) ''/'' =
      Inr (''..'' @ concat (replicate (count_list (joinSep B) CHR ''/'') ''/..''))"
    unfolding Rel_def cb cr Let_def using jn loop by simp
  then show ?thesis by blast
qed

lemma safeJoin_empty_base_root:
  assumes ok: "Abs wd [] = Inr (CHR ''/'' # joinSep B)"
    and real: "\<forall>e\<in>set B. realElem e" and ne: "B \<noteq> []"
    and name: "name \<noteq> []" "Base (Clean name) = ''/''"
  shows "safeJoin wd [] name = Inl EscapesBase"
proof -
  have j: "Join [] ''/'' = ''/''" by (simp add: Join_def Clean_def cleanElems_skip_nil)
  have a: "Abs wd ''/'' = Inr ''/''"
    by (simp add: Abs_def IsAbs_iff Clean_def cleanElems_skip_nil)
  obtain n where n: "Rel (CHR ''/'' # joinSep B) ''/'' = Inr (''..'' @ concat (replicate n ''/..''))"
    using Rel_to_root [OF real ne] by blast
  show ?thesis
    unfolding safeJoin_def Let_def name(2) j a ok
    using name(1) n dotdots_escape [of n] by auto
qed

text \<open>
  C2 (as amended). For every base directory and candidate name, given that the working
  directory \<open>os.Getwd\<close> reports for a relative base is absolute: when the base has no
  absolute path \<open>safeJoin\<close> fails; otherwise it either fails or returns an absolute
  path that is the absolute base directory itself or a direct child of it, never a
  path outside the base. It fails on the empty name, and it fails whenever the name
  normalises to \<open>..\<close> and the base is not the root.
\<close>

theorem safeJoin_contract:
  assumes wdok: "IsAbs baseDir \<or> (\<forall>d. wd = Inr d \<longrightarrow> IsAbs d)"
  shows "case Abs wd baseDir of
           Inl e \<Rightarrow> safeJoin wd baseDir fileName = Inl (if fileName = [] then EmptyName else e)
         | Inr b \<Rightarrow>
             (case safeJoin wd baseDir fileName of
                Inl e \<Rightarrow> True
              | Inr p \<Rightarrow> IsAbs p \<and> (p = b \<or> isDirectChild b p)) \<and>
             (fileName = [] \<longrightarrow> safeJoin wd baseDir fileName = Inl EmptyName) \<and>
             (Base (Clean fileName) = ''..'' \<and> b \<noteq> ''/'' \<longrightarrow>
                safeJoin wd baseDir fileName = Inl EscapesBase)"
proof (cases "Abs wd baseDir")
  case (Inl e)
  then show ?thesis by (simp add: safeJoin_def Let_def)
next
  case (Inr b)
  define B where "B = absElems wd baseDir"
  define c where "c = Base (Clean fileName)"
  define res where "res = safeJoin wd baseDir fileName"
  have real: "\<forall>e\<in>set B. realElem e" unfolding B_def by (rule absElems_real)
  have b: "b = CHR ''/'' # joinSep B"
    using Abs_elems [OF wdok] Inr unfolding B_def by (auto split: if_splits sum.splits)
  have absb: "IsAbs b" unfolding b by (rule IsAbs_rooted)
  have ok: "Abs wd baseDir = Inr (CHR ''/'' # joinSep B)" using Inr b by simp
  have at_root: "B = [] \<Longrightarrow> b = ''/''" by (simp add: b)
  have dd: "''/'' \<noteq> ''..''" "''.'' \<noteq> ''..''" by simp_all
  have goal: "(case res of
            Inl e \<Rightarrow> True
          | Inr p \<Rightarrow> IsAbs p \<and> (p = b \<or> isDirectChild b p)) \<and>
         (fileName = [] \<longrightarrow> res = Inl EmptyName) \<and>
         (c = ''..'' \<and> b \<noteq> ''/'' \<longrightarrow> res = Inl EscapesBase)"
  proof (cases "fileName = []")
    case True
    have "res = Inl EmptyName" unfolding res_def True by (simp add: safeJoin_def)
    then show ?thesis unfolding c_def True Base_Clean_Nil by simp
  next
    case False
    have cc: "c = ''/'' \<or> c = ''.'' \<or> c = ''..'' \<or> realElem c"
      using Base_Clean_cases [OF False] unfolding c_def .
    show ?thesis
    proof (cases "baseDir = [] \<and> c = ''/'' \<and> B \<noteq> []")
      case True
      have "res = Inl EscapesBase"
        unfolding res_def using safeJoin_empty_base_root [OF _ real _ False, of wd] ok True
        by (simp add: c_def)
      then show ?thesis using True False by simp
    next
      case nsp: False
      have absj: "Abs wd (Join baseDir (Base (Clean fileName))) =
          Inr (CHR ''/'' # joinSep (cleanElems True (splitSep (Base (Clean fileName))) (rev B)))"
        unfolding B_def
        by (rule Abs_joined [OF wdok Inr]) (use cc nsp in \<open>simp_all add: c_def B_def\<close>)
      note S = safeJoin_core [OF False ok real absj, folded c_def res_def]
      consider (same) "c = ''/'' \<or> c = ''.''" | (root) "c = ''..''" "B = []"
        | (up) "c = ''..''" "B \<noteq> []" | (child) "realElem c"
        using cc by fast
      then show ?thesis
      proof cases
        case same
        have r: "res = Inr b" unfolding b by (rule S(1) [OF same])
        have "c \<noteq> ''..''" using same dd by fast
        then show ?thesis unfolding r using absb False by simp
      next
        case root
        have r: "res = Inr b" unfolding b by (rule S(2) [OF root])
        show ?thesis unfolding r using absb at_root [OF root(2)] False by simp
      next
        case up
        have r: "res = Inl EscapesBase" by (rule S(3) [OF up])
        show ?thesis unfolding r using False by simp
      next
        case child
        have r: "res = Inr (CHR ''/'' # joinSep (B @ [c]))" by (rule S(4) [OF child])
        have "c \<noteq> ''..''" using child unfolding realElem_def by fast
        moreover have "isDirectChild b (CHR ''/'' # joinSep (B @ [c]))"
          unfolding b by (rule isDirectChild_child [OF real child])
        ultimately show ?thesis unfolding r using IsAbs_rooted False by simp
      qed
    qed
  qed
  show ?thesis unfolding Inr using goal unfolding res_def c_def by simp
qed

lemma safeJoin_child:
  assumes ab: "IsAbs baseDir" and c: "realElem (Base (Clean fileName))"
  shows "safeJoin wd baseDir fileName = Inr (childPath (Clean baseDir) (Base (Clean fileName)))"
proof -
  have ne: "fileName \<noteq> []" using c Base_Clean_Nil by (auto simp: realElem_def)
  have wdok: "IsAbs baseDir \<or> (\<forall>d. wd = Inr d \<longrightarrow> IsAbs d)" using ab by simp
  define B where "B = cleanElems True (splitSep baseDir) []"
  have real: "\<forall>e\<in>set B. realElem e" unfolding B_def by (rule rootedElems_real)
  have BB: "absElems wd baseDir = B" using ab by (simp add: absElems_def B_def)
  have ok: "Abs wd baseDir = Inr (CHR ''/'' # joinSep B)"
    using Abs_elems [OF wdok] ab BB by simp
  have absj: "Abs wd (Join baseDir (Base (Clean fileName))) =
      Inr (CHR ''/'' # joinSep (cleanElems True (splitSep (Base (Clean fileName))) (rev B)))"
    using Abs_joined [OF wdok ok, of "Base (Clean fileName)"] c ab
    by (simp add: BB IsAbs_iff)
  show ?thesis
    using safeJoin_core(4) [OF ne ok real absj c] childPath_rooted [OF real]
      Clean_abs [OF ab, folded B_def]
    by simp
qed

theorem safeJoin_contract_witness:
  "Abs (Inr ''/srv'') ''photos'' = Inr ''/srv/photos'' \<and>
   safeJoin (Inr ''/srv'') ''photos'' ''a.jpg'' = Inr ''/srv/photos/a.jpg'' \<and>
   IsAbs ''/srv/photos/a.jpg'' \<and>
   isDirectChild ''/srv/photos'' ''/srv/photos/a.jpg'' \<and>
   safeJoin (Inr ''/srv'') ''photos'' [] = Inl EmptyName \<and>
   safeJoin (Inr ''/srv'') ''photos'' ''x/../..'' = Inl EscapesBase \<and>
   safeJoin (Inl (OSError ''getwd'')) ''photos'' ''a.jpg'' = Inl (OSError ''getwd'')"
proof -
  have wd: "IsAbs ''photos'' \<or> (\<forall>d. (Inr ''/srv'' :: error + string) = Inr d \<longrightarrow> IsAbs d)"
    by (simp add: IsAbs_def hasPrefix_def)
  have wd': "IsAbs ''photos'' \<or> (\<forall>d. (Inl (OSError ''getwd'') :: error + string) = Inr d \<longrightarrow> IsAbs d)"
    by simp
  have ab: "Abs (Inr ''/srv'') ''photos'' = Inr ''/srv/photos''" by code_simp
  have ab': "Abs (Inl (OSError ''getwd'')) ''photos'' = Inl (OSError ''getwd'')" by code_simp
  have a: "safeJoin (Inr ''/srv'') ''photos'' ''a.jpg'' = Inr ''/srv/photos/a.jpg''" by code_simp
  have dd: "Base (Clean ''x/../..'') = ''..''" by code_simp
  have neq: "''/srv/photos/a.jpg'' \<noteq> ''/srv/photos''" by simp
  note t = safeJoin_contract [OF wd, unfolded ab sum.case]
  have child: "IsAbs ''/srv/photos/a.jpg'' \<and> isDirectChild ''/srv/photos'' ''/srv/photos/a.jpg''"
    using t [of "''a.jpg''"] neq unfolding a by simp
  have empty: "safeJoin (Inr ''/srv'') ''photos'' [] = Inl EmptyName"
    using t [of "[]"] by simp
  have esc: "safeJoin (Inr ''/srv'') ''photos'' ''x/../..'' = Inl EscapesBase"
    using t [of "''x/../..''"] dd by simp
  have nowd: "safeJoin (Inl (OSError ''getwd'')) ''photos'' ''a.jpg'' = Inl (OSError ''getwd'')"
    using safeJoin_contract [OF wd', of "''a.jpg''", unfolded ab' sum.case] by simp
  from ab a child empty esc nowd show ?thesis by blast
qed

text \<open>The name \<open>.\<close> is accepted and yields the base directory itself, which is not a
  direct child of the base.\<close>

theorem safeJoin_direct_child_counterexample:
  "safeJoin (Inr ''/'') ''/photos'' ''.'' = Inr ''/photos'' \<and>
   \<not> isDirectChild ''/photos'' ''/photos''"
proof -
  have "safeJoin (Inr ''/'') ''/photos'' ''.'' = Inr ''/photos''" by code_simp
  moreover have "\<not> isDirectChild ''/photos'' ''/photos''"
    by (simp add: isDirectChild_def hasPrefix_def)
  ultimately show ?thesis by blast
qed

section \<open>Photo Scanner\<close>


lemma Clean_realElem: "realElem e \<Longrightarrow> Clean e = e"
proof -
  assume r: "realElem e"
  then obtain a as where e: "e = a # as" and a: "a \<noteq> CHR ''/''"
    by (cases e) (auto simp: realElem_def)
  have "splitSep e = [e]" using r by (intro splitSep_noSep) (simp add: realElem_noSep)
  moreover have "cleanElems False [e] [] = [e]" using r by (simp add: cleanElems_push)
  ultimately show ?thesis using e a by (simp add: Clean_def)
qed

lemma Base_realElem: "realElem e \<Longrightarrow> Base e = e"
  by (rule Base_elem) (simp_all add: realElem_def noSep_def)

lemma safeJoin_entry:
  assumes "IsAbs dir" "realElem name"
  shows "safeJoin wd dir name = Inr (childPath (Clean dir) name)"
  using safeJoin_child [OF assms(1), of name wd] assms(2)
  by (simp add: Clean_realElem Base_realElem)

lemma scanEntry_Some:
  assumes "IsAbs dir" "realElem (EntryName e)"
  shows "scanEntry s dir e =
    (if kept s dir e then
       (case stat s (childPath (Clean dir) (EntryName e)) of
          Inr fi \<Rightarrow> Some \<lparr>URL = ''/photos/'' @ urlPathEscape (EntryName e) @ ''?v='' @ intToDec (ModTime fi),
                          Name = EntryName e, Mtime = ModTime fi, Size = FileSize fi\<rparr>
        | Inl err \<Rightarrow> None)
     else None)"
  unfolding scanEntry_def kept_def lowerExt_def imageExts_def isAllowedExt_def Let_def
    safeJoin_entry [OF assms]
  by (simp split: sum.splits)

lemma isASCII_Ext: "isASCII name \<Longrightarrow> isASCII (Ext name)"
proof -
  assume a: "isASCII name"
  have "set (lastElem name) \<subseteq> set name"
    unfolding lastElem_def using set_takeWhileD [of _ "\<lambda>c. c \<noteq> CHR ''/''" "rev name"] by auto
  moreover have "set (Ext name) \<subseteq> set (lastElem name)"
    unfolding Ext_def Let_def
    using set_takeWhileD [of _ "\<lambda>c. c \<noteq> CHR ''.''" "rev (lastElem name)"] by auto
  ultimately show ?thesis using a unfolding isASCII_def list_all_iff by blast
qed

lemma lowerExt_ASCII: "isASCII name \<Longrightarrow> lowerExt s name = map lowerChar (Ext name)"
  by (simp add: lowerExt_def ToLower_def isASCII_Ext)

lemma map_filter_names:
  assumes "\<forall>e\<in>set es. \<forall>p. f e = Some p \<longrightarrow> Name p = EntryName e"
    and "\<forall>e\<in>set es. (f e \<noteq> None) = P e"
  shows "map Name (List.map_filter f es) = map EntryName (filter P es)"
  using assms by (induction es) (auto simp: List.map_filter_simps split: option.splits)

lemma in_map_filterD: "p \<in> set (List.map_filter f xs) \<Longrightarrow> \<exists>e\<in>set xs. f e = Some p"
  by (induction xs) (auto simp: List.map_filter_simps split: option.splits)

lemma scanEntry_sound:
  assumes ab: "IsAbs dir" and nm: "realElem (EntryName e)" and sc: "scanEntry s dir e = Some p"
  shows "Name p = EntryName e \<and> kept s dir e \<and> lowerExt s (Name p) \<in> set imageExts \<and>
     stat s (childPath (Clean dir) (Name p)) =
       Inr \<lparr>IsDir = False, FileSize = Size p, ModTime = Mtime p\<rparr>"
proof -
  have k: "kept s dir e" using sc unfolding scanEntry_Some [OF ab nm] by (simp split: if_splits)
  then obtain fi where fi: "stat s (childPath (Clean dir) (EntryName e)) = Inr fi" "\<not> IsDir fi"
    unfolding kept_def by (auto split: sum.splits)
  have p: "p = \<lparr>URL = ''/photos/'' @ urlPathEscape (EntryName e) @ ''?v='' @ intToDec (ModTime fi),
                 Name = EntryName e, Mtime = ModTime fi, Size = FileSize fi\<rparr>"
    using sc k fi unfolding scanEntry_Some [OF ab nm] by simp
  have "fi = \<lparr>IsDir = False, FileSize = FileSize fi, ModTime = ModTime fi\<rparr>"
    using fi(2) by simp
  then show ?thesis using k fi(1) p unfolding kept_def by simp
qed

lemma scanEntry_complete:
  assumes ab: "IsAbs dir" and nm: "realElem (EntryName e)"
  shows "(scanEntry s dir e \<noteq> None) = kept s dir e"
  unfolding scanEntry_Some [OF ab nm] kept_def by (simp split: sum.splits)

text \<open>
  C5. For an absolute directory whose listing names its entries as an operating system
  does (one path element each), \<open>scanPhotos\<close> fails only when the listing itself fails,
  and otherwise returns, in the order of the listing, exactly one photo per entry that
  is not a directory, whose extension in lower case is one of \<open>.jpg\<close>, \<open>.jpeg\<close>, \<open>.png\<close>,
  \<open>.webp\<close>, \<open>.gif\<close> and which can still be stat'ed as a non-directory; the size and
  modification time of each photo are those of the stat of its path in the directory.
  Entries with other extensions, directories, and entries that have vanished or become
  directories are left out without an error. For a name of ASCII bytes lower case is
  \<open>A\<close>..\<open>Z\<close> mapped to \<open>a\<close>..\<open>z\<close>, so \<open>IMG.JPG\<close> is listed.
\<close>

theorem scanPhotos_exact:
  assumes ab: "IsAbs dir"
    and names: "\<forall>entries. readDir s dir = Inr entries \<longrightarrow>
                  (\<forall>e\<in>set entries. realElem (EntryName e))"
  shows "case readDir s dir of
           Inl err \<Rightarrow> scanPhotos s dir = Inl err
         | Inr entries \<Rightarrow>
             (\<exists>photos. scanPhotos s dir = Inr photos \<and>
                map Name photos = map EntryName (filter (kept s dir) entries) \<and>
                (\<forall>p\<in>set photos.
                   ToLower (tables s) (Ext (Name p)) \<in>
                     {''.jpg'', ''.jpeg'', ''.png'', ''.webp'', ''.gif''} \<and>
                   (isASCII (Name p) \<longrightarrow>
                      map lowerChar (Ext (Name p)) \<in>
                        {''.jpg'', ''.jpeg'', ''.png'', ''.webp'', ''.gif''}) \<and>
                   stat s (childPath (Clean dir) (Name p)) =
                     Inr \<lparr>IsDir = False, FileSize = Size p, ModTime = Mtime p\<rparr>))"
proof (cases "readDir s dir")
  case (Inl err)
  then show ?thesis by (simp add: scanPhotos_def)
next
  case (Inr entries)
  have nm: "\<forall>e\<in>set entries. realElem (EntryName e)" using names Inr by simp
  define photos where "photos = List.map_filter (scanEntry s dir) entries"
  have sp: "scanPhotos s dir = Inr photos" using Inr by (simp add: scanPhotos_def photos_def)
  have n: "map Name photos = map EntryName (filter (kept s dir) entries)"
    unfolding photos_def
  proof (rule map_filter_names)
    show "\<forall>e\<in>set entries. \<forall>p. scanEntry s dir e = Some p \<longrightarrow> Name p = EntryName e"
      using scanEntry_sound [OF ab] nm by blast
    show "\<forall>e\<in>set entries. (scanEntry s dir e \<noteq> None) = kept s dir e"
      using scanEntry_complete [OF ab] nm by blast
  qed
  have each: "ToLower (tables s) (Ext (Name p)) \<in>
        {''.jpg'', ''.jpeg'', ''.png'', ''.webp'', ''.gif''} \<and>
      (isASCII (Name p) \<longrightarrow>
         map lowerChar (Ext (Name p)) \<in> {''.jpg'', ''.jpeg'', ''.png'', ''.webp'', ''.gif''}) \<and>
      stat s (childPath (Clean dir) (Name p)) =
        Inr \<lparr>IsDir = False, FileSize = Size p, ModTime = Mtime p\<rparr>" if mem: "p \<in> set photos" for p
  proof -
    obtain e where e: "e \<in> set entries" "scanEntry s dir e = Some p"
      using in_map_filterD [OF mem [unfolded photos_def]] by blast
    have snd: "lowerExt s (Name p) \<in> set imageExts \<and>
        stat s (childPath (Clean dir) (Name p)) =
          Inr \<lparr>IsDir = False, FileSize = Size p, ModTime = Mtime p\<rparr>"
      using scanEntry_sound [OF ab _ e(2)] nm e(1) by blast
    have ext: "ToLower (tables s) (Ext (Name p)) \<in>
        {''.jpg'', ''.jpeg'', ''.png'', ''.webp'', ''.gif''}"
      using snd by (simp add: lowerExt_def imageExts_def)
    have asc: "map lowerChar (Ext (Name p)) \<in> {''.jpg'', ''.jpeg'', ''.png'', ''.webp'', ''.gif''}"
      if "isASCII (Name p)"
      using snd lowerExt_ASCII [OF that, of s] by (simp add: imageExts_def)
    show ?thesis using snd ext asc by blast
  qed
  show ?thesis unfolding Inr using sp n each by simp
qed

lemma scanPhotos_fails_iff:
  "(\<exists>err. scanPhotos s dir = Inl err) \<longleftrightarrow> (\<exists>err. readDir s dir = Inl err)"
  by (cases "readDir s dir") (simp_all add: scanPhotos_def)

theorem scanPhotos_exact_witness:
  "IsAbs ''/photos'' \<and>
   readDir exSys ''/photos'' = Inr exEntries \<and>
   list_all (\<lambda>e. realElem (EntryName e)) exEntries \<and>
   map EntryName (filter (kept exSys ''/photos'') exEntries) = [''a.jpg'', ''b.png'', ''IMG.JPG''] \<and>
   (\<exists>photos. scanPhotos exSys ''/photos'' = Inr photos \<and>
      map Name photos = [''a.jpg'', ''b.png'', ''IMG.JPG'']) \<and>
   scanPhotos exSys ''/photos'' =
     Inr [\<lparr>URL = ''/photos/a.jpg?v=100'', Name = ''a.jpg'', Mtime = 100, Size = 10\<rparr>,
          \<lparr>URL = ''/photos/b.png?v=200'', Name = ''b.png'', Mtime = 200, Size = 20\<rparr>,
          \<lparr>URL = ''/photos/IMG.JPG?v=400'', Name = ''IMG.JPG'', Mtime = 400, Size = 40\<rparr>]"
proof -
  have ab: "IsAbs ''/photos''" by (simp add: IsAbs_def hasPrefix_def)
  have rd: "readDir exSys ''/photos'' = Inr exEntries" by (simp add: exSys_def)
  have la: "list_all (\<lambda>e. realElem (EntryName e)) exEntries" by code_simp
  have names: "\<forall>entries. readDir exSys ''/photos'' = Inr entries \<longrightarrow>
      (\<forall>e\<in>set entries. realElem (EntryName e))"
    using la unfolding rd by (simp add: list_all_iff)
  have k: "map EntryName (filter (kept exSys ''/photos'') exEntries) =
      [''a.jpg'', ''b.png'', ''IMG.JPG'']"
    by code_simp
  have ex: "\<exists>photos. scanPhotos exSys ''/photos'' = Inr photos \<and>
      map Name photos = [''a.jpg'', ''b.png'', ''IMG.JPG'']"
    using scanPhotos_exact [OF ab names] k by (auto simp: rd)
  have ev: "scanPhotos exSys ''/photos'' =
     Inr [\<lparr>URL = ''/photos/a.jpg?v=100'', Name = ''a.jpg'', Mtime = 100, Size = 10\<rparr>,
          \<lparr>URL = ''/photos/b.png?v=200'', Name = ''b.png'', Mtime = 200, Size = 20\<rparr>,
          \<lparr>URL = ''/photos/IMG.JPG?v=400'', Name = ''IMG.JPG'', Mtime = 400, Size = 40\<rparr>]"
    by code_simp
  from ab rd la k ex ev show ?thesis by blast
qed

section \<open>Ordering: sortedness and permutation\<close>

lemma mset_insertBy: "mset (insertBy lt x xs) = add_mset x (mset xs)"
  by (induction xs) auto

lemma mset_sortSlice: "mset (sortSlice lt xs) = mset xs"
  unfolding sortSlice_def by (induction xs) (auto simp: mset_insertBy)

lemma mset_sortPhotos: "mset (sortPhotos u photos order) = mset photos"
  unfolding sortPhotos_def by (simp add: mset_sortSlice)

lemma set_insertBy: "set (insertBy lt x xs) = insert x (set xs)"
  by (induction xs) auto

lemma sorted_insertBy:
  assumes asym: "\<And>a b. lt a b \<Longrightarrow> \<not> lt b a"
    and trans: "\<And>a b c. \<not> lt b a \<Longrightarrow> \<not> lt c b \<Longrightarrow> \<not> lt c a"
    and srt: "sorted_wrt (\<lambda>a b. \<not> lt b a) xs"
  shows "sorted_wrt (\<lambda>a b. \<not> lt b a) (insertBy lt x xs)"
  using srt
proof (induction xs)
  case Nil
  then show ?case by simp
next
  case (Cons y ys)
  show ?case
  proof (cases "lt x y")
    case True
    have "\<not> lt y x" using True by (rule asym)
    moreover have "\<forall>z\<in>set ys. \<not> lt z x"
      using Cons.prems True asym trans by (metis sorted_wrt.simps(2))
    ultimately show ?thesis using True Cons.prems by simp
  next
    case False
    then show ?thesis using Cons by (auto simp: set_insertBy)
  qed
qed

lemma sorted_sortSlice:
  assumes asym: "\<And>a b. lt a b \<Longrightarrow> \<not> lt b a"
    and trans: "\<And>a b c. \<not> lt b a \<Longrightarrow> \<not> lt c b \<Longrightarrow> \<not> lt c a"
  shows "sorted_wrt (\<lambda>a b. \<not> lt b a) (sortSlice lt xs)"
proof (induction xs)
  case Nil
  show ?case by (simp add: sortSlice_def)
next
  case (Cons x xs)
  have "sorted_wrt (\<lambda>a b. \<not> lt b a) (insertBy lt x (sortSlice lt xs))"
    using asym trans Cons.IH by (rule sorted_insertBy)
  then show ?case by (simp add: sortSlice_def)
qed

lemma sortSlice_asc:
  fixes key :: "'a \<Rightarrow> 'k::linorder"
  shows "sorted_wrt (\<lambda>a b. key a \<le> key b) (sortSlice (\<lambda>a b. key a < key b) xs)"
  using sorted_sortSlice [of "\<lambda>a b. key a < key b" xs] by (simp add: not_less)

lemma sortSlice_desc:
  fixes key :: "'a \<Rightarrow> 'k::linorder"
  shows "sorted_wrt (\<lambda>a b. key b \<le> key a) (sortSlice (\<lambda>a b. key a > key b) xs)"
  using sorted_sortSlice [of "\<lambda>a b. key a > key b" xs] by (simp add: not_less)

text \<open>
  C7. \<open>sortPhotos\<close> orders the listing by the requested key: \<open>mtime_asc\<close> by
  non-decreasing modification time, \<open>name_asc\<close> and \<open>name_desc\<close> by the name in lower
  case (\<open>strings.ToLower\<close>, whatever the case tables of the library are) in
  non-decreasing and non-increasing byte order, and every other value of \<open>order\<close>
  (\<open>mtime_desc\<close>, the empty string, anything unrecognised) exactly as \<open>mtime_desc\<close>
  does, newest first. The result is always a permutation of the input.
\<close>

theorem sortPhotos_ordering:
  "(order = ''mtime_asc'' \<longrightarrow>
      sorted_wrt (\<lambda>a b. Mtime a \<le> Mtime b) (sortPhotos u photos order)) \<and>
   (order = ''name_asc'' \<longrightarrow>
      sorted_wrt (\<lambda>a b. ToLower u (Name a) \<le> ToLower u (Name b)) (sortPhotos u photos order)) \<and>
   (order = ''name_desc'' \<longrightarrow>
      sorted_wrt (\<lambda>a b. ToLower u (Name b) \<le> ToLower u (Name a)) (sortPhotos u photos order)) \<and>
   (order \<notin> {''mtime_asc'', ''name_asc'', ''name_desc''} \<longrightarrow>
      sortPhotos u photos order = sortPhotos u photos ''mtime_desc'' \<and>
      sorted_wrt (\<lambda>a b. Mtime b \<le> Mtime a) (sortPhotos u photos order)) \<and>
   mset (sortPhotos u photos order) = mset photos"
proof -
  have asc: "sorted_wrt (\<lambda>a b. Mtime a \<le> Mtime b) (sortPhotos u photos ''mtime_asc'')"
    unfolding sortPhotos_def using sortSlice_asc [of Mtime photos] by simp
  have nasc: "sorted_wrt (\<lambda>a b. ToLower u (Name a) \<le> ToLower u (Name b))
      (sortPhotos u photos ''name_asc'')"
    unfolding sortPhotos_def using sortSlice_asc [of "\<lambda>p. ToLower u (Name p)" photos] by simp
  have ndesc: "sorted_wrt (\<lambda>a b. ToLower u (Name b) \<le> ToLower u (Name a))
      (sortPhotos u photos ''name_desc'')"
    unfolding sortPhotos_def using sortSlice_desc [of "\<lambda>p. ToLower u (Name p)" photos] by simp
  have dflt: "order \<notin> {''mtime_asc'', ''name_asc'', ''name_desc''} \<Longrightarrow>
      sortPhotos u photos order = sortSlice (\<lambda>a b. Mtime a > Mtime b) photos"
    unfolding sortPhotos_def by simp
  have mdesc: "sortPhotos u photos ''mtime_desc'' = sortSlice (\<lambda>a b. Mtime a > Mtime b) photos"
    unfolding sortPhotos_def by simp
  have perm: "mset (sortPhotos u photos order) = mset photos"
    by (rule mset_sortPhotos)
  show ?thesis
    using asc nasc ndesc dflt mdesc perm sortSlice_desc [of Mtime photos] by auto
qed

lemma exPhotos_name_asc:
  "map Name (sortPhotos (tables exSys) exPhotos ''name_asc'') = [''a.jpg'', ''b.png'', ''C.gif'']"
  by code_simp

lemma exPhotos_default:
  "map Name (sortPhotos (tables exSys) exPhotos '''') = [''b.png'', ''C.gif'', ''a.jpg'']"
  by code_simp

theorem sortPhotos_ordering_witness:
  "map Name (sortPhotos (tables exSys) exPhotos ''name_asc'') = [''a.jpg'', ''b.png'', ''C.gif''] \<and>
   sorted_wrt (\<lambda>a b. ToLower (tables exSys) (Name a) \<le> ToLower (tables exSys) (Name b)) (sortPhotos (tables exSys) exPhotos ''name_asc'') \<and>
   map Name (sortPhotos (tables exSys) exPhotos '''') = [''b.png'', ''C.gif'', ''a.jpg''] \<and>
   sortPhotos (tables exSys) exPhotos '''' = sortPhotos (tables exSys) exPhotos ''mtime_desc'' \<and>
   sorted_wrt (\<lambda>a b. Mtime b \<le> Mtime a) (sortPhotos (tables exSys) exPhotos '''') \<and>
   mset (sortPhotos (tables exSys) exPhotos '''') = mset exPhotos"
proof -
  have a: "sorted_wrt (\<lambda>a b. ToLower (tables exSys) (Name a) \<le> ToLower (tables exSys) (Name b))
      (sortPhotos (tables exSys) exPhotos ''name_asc'')"
    using sortPhotos_ordering [of "''name_asc''" "tables exSys" exPhotos] by simp
  have b: "sortPhotos (tables exSys) exPhotos '''' = sortPhotos (tables exSys) exPhotos ''mtime_desc'' \<and>
      sorted_wrt (\<lambda>a b. Mtime b \<le> Mtime a) (sortPhotos (tables exSys) exPhotos '''') \<and>
      mset (sortPhotos (tables exSys) exPhotos '''') = mset exPhotos"
  proof -
    have "[] \<notin> {''mtime_asc'', ''name_asc'', ''name_desc''}" by simp
    with sortPhotos_ordering [of "[]" "tables exSys" exPhotos] show ?thesis by blast
  qed
  from a b exPhotos_name_asc exPhotos_default show ?thesis by blast
qed

section \<open>Responses\<close>

lemma setHeader_proj [simp]:
  "wHeader (setHeader k v w) = (wHeader w)(k \<mapsto> v)"
  "wSent (setHeader k v w) = wSent w"
  "wCookies (setHeader k v w) = wCookies w"
  "wBody (setHeader k v w) = wBody w"
  by (simp_all add: setHeader_def)

lemma SetCookie_proj [simp]:
  "wHeader (SetCookie c w) = wHeader w"
  "wSent (SetCookie c w) = wSent w"
  "wCookies (SetCookie c w) = wCookies w @ [c\<lparr>CookieValue := sanitizeCookieValue (CookieValue c)\<rparr>]"
  "wBody (SetCookie c w) = wBody w"
  by (simp_all add: SetCookie_def)

lemma WriteHeader_proj [simp]:
  "wHeader (WriteHeader code w) = wHeader w"
  "wSent (WriteHeader code w) =
     (if wSent w = None then Some (code, wHeader w, wCookies w) else wSent w)"
  "wCookies (WriteHeader code w) = wCookies w"
  "wBody (WriteHeader code w) = wBody w"
  by (simp_all add: WriteHeader_def)

lemma Write_proj [simp]:
  "wHeader (Write c w) = wHeader w"
  "wSent (Write c w) =
     (if wSent w = None then Some (200, wHeader w, wCookies w) else wSent w)"
  "wCookies (Write c w) = wCookies w"
  "wBody (Write c w) = wBody w @ [c]"
  by (simp_all add: Write_def Let_def)

lemma newWriter_proj [simp]:
  "wHeader newWriter = Map.empty"
  "wSent newWriter = None"
  "wCookies newWriter = []"
  "wBody newWriter = []"
  by (simp_all add: newWriter_def)

lemma response_proj:
  "Status (response w) = (case wSent w of Some (code, h, cs) \<Rightarrow> code | None \<Rightarrow> 200)"
  "Fields (response w) = (case wSent w of Some (code, h, cs) \<Rightarrow> h | None \<Rightarrow> wHeader w)"
  "SetCookies (response w) = (case wSent w of Some (code, h, cs) \<Rightarrow> cs | None \<Rightarrow> wCookies w)"
  "Body (response w) = wBody w"
  by (simp_all add: response_def split: option.splits)

lemma httpError_proj [simp]:
  "wSent (httpError msg code w) =
     (if wSent w = None
      then Some (code, (wHeader w)(''Content-Type'' \<mapsto> ''text/plain; charset=utf-8'',
                                   ''X-Content-Type-Options'' \<mapsto> ''nosniff''), wCookies w)
      else wSent w)"
  "wHeader (httpError msg code w) =
     (wHeader w)(''Content-Type'' \<mapsto> ''text/plain; charset=utf-8'',
                 ''X-Content-Type-Options'' \<mapsto> ''nosniff'')"
  "wCookies (httpError msg code w) = wCookies w"
  "wBody (httpError msg code w) = wBody w @ [Bytes (msg @ [CHR 0x0A])]"
  by (simp_all add: httpError_def)

lemma unauthorized_proj [simp]:
  "wSent (unauthorized r w) =
     (if wSent w = None
      then Some (401, (wHeader w)(''Cache-Control'' \<mapsto> ''no-store'',
                                  ''Content-Type'' \<mapsto> ''text/html; charset=utf-8''), wCookies w)
      else wSent w)"
  "wCookies (unauthorized r w) = wCookies w"
  by (simp_all add: unauthorized_def)


section \<open>Auth Gate\<close>






lemma setAuthCookie_proj [simp]:
  "wSent (setAuthCookie (tables s) r token w) = wSent w"
  "wHeader (setAuthCookie (tables s) r token w) = wHeader w"
  "wCookies (setAuthCookie (tables s) r token w) = wCookies w @
     [\<lparr>CookieName = ''frameserve_auth'', CookieValue = sanitizeCookieValue token, CookiePath = ''/'',
       MaxAge = 31536000, HttpOnly = True, CookieSameSite = SameSiteLaxMode,
       Secure = (TLS r \<or> EqualFold (tables s) (headerGet r ''X-Forwarded-Proto'') ''https'')\<rparr>]"
  by (simp_all add: setAuthCookie_def isProbablyHTTPS_def authCookieName_def
      authCookieMaxAgeSeconds_def Let_def)









text \<open>The token \<open>main\<close> hands to the gate is trimmed, so it is not blank when it is not
  empty.\<close>

lemma configured_token_not_blank:
  assumes "loadConfig wd environ = Inr cfg" "authToken cfg \<noteq> []"
  shows "TrimSpace (authToken cfg) \<noteq> []"
proof -
  have "authToken cfg = TrimSpace (osGetenv environ ''AUTH_TOKEN'')"
    using assms(1) by (auto simp: loadConfig_def Let_def split: sum.splits)
  then show ?thesis using assms(2) by (simp add: TrimSpace_idem)
qed


lemma securityHeaders_sent [simp]: "wSent w = None \<Longrightarrow>
   wSent (setHeader ''Content-Security-Policy'' contentSecurityPolicy
         (setHeader ''Permissions-Policy'' ''geolocation=(), microphone=(), camera=()''
           (setHeader ''Referrer-Policy'' ''no-referrer''
             (setHeader ''X-Frame-Options'' ''DENY''
               (setHeader ''X-Content-Type-Options'' ''nosniff'' w))))) = None"
  by simp





section \<open>Security Headers\<close>





























section \<open>Photo handler, listing and configuration\<close>

lemma hasPrefix_mem: "hasPrefix sub s \<Longrightarrow> c \<in> set sub \<Longrightarrow> c \<in> set s"
proof -
  assume "hasPrefix sub s" "c \<in> set sub"
  then have "c \<in> set (take (length sub) s)" by (simp add: hasPrefix_def)
  then show ?thesis by (rule in_set_takeD)
qed

lemma containsStr_mem: "containsStr sub s \<Longrightarrow> c \<in> set sub \<Longrightarrow> c \<in> set s"
  by (induction s) (auto dest: hasPrefix_mem)

lemma NotFound_status: "wSent w = None \<Longrightarrow> Status (response (NotFound w)) = 404"
  by (simp add: NotFound_def response_proj)

lemma NotFound_body:
  "Body (response (NotFound w)) = wBody w @ [Bytes (''404 page not found'' @ [CHR 0x0A])]"
  by (simp add: NotFound_def response_proj)

text \<open>
  C4 (as amended). For a request that reaches the photo handler and whose file name
  (the path after \<open>/photos/\<close>) contains \<open>../\<close>, begins with \<open>/\<close> or contains a backslash:
  with method GET or HEAD the response is the 404 not-found page; with any other method
  it is 405; and in both cases the response is the same for every file system and
  photos directory, so no file content is served.
\<close>

theorem photos_traversal_rejected:
  assumes bad: "containsStr ''../'' (trimPrefix ''/photos/'' (Path r)) \<or>
                hasPrefix ''/'' (trimPrefix ''/photos/'' (Path r)) \<or>
                CHR 0x5C \<in> set (trimPrefix ''/photos/'' (Path r))"
  shows
    "(Method r = ''GET'' \<or> Method r = ''HEAD'' \<longrightarrow>
        photosHandler s dir r w = NotFound w \<and>
        Status (response (photosHandler s dir r newWriter)) = 404 \<and>
        Body (response (photosHandler s dir r newWriter)) =
          [Bytes (''404 page not found'' @ [CHR 0x0A])]) \<and>
     (Method r \<noteq> ''GET'' \<and> Method r \<noteq> ''HEAD'' \<longrightarrow>
        Status (response (photosHandler s dir r newWriter)) = 405) \<and>
     photosHandler s' dir' r w = photosHandler s dir r w"
proof -
  define name where "name = trimPrefix ''/photos/'' (Path r)"
  have sep: "CHR ''/'' \<in> set name \<or> CHR 0x5C \<in> set name"
    using bad containsStr_mem [of "''../''" name "CHR ''/''"] hasPrefix_mem [of "''/''" name "CHR ''/''"]
    unfolding name_def by auto
  have nf: "photosHandler t d r v = NotFound v" if "Method r = ''GET'' \<or> Method r = ''HEAD''" for t d v
    using that sep unfolding photosHandler_def Let_def name_def by auto
  have na: "photosHandler t d r v = httpError ''method not allowed'' 405 (setHeader ''Allow'' ''GET, HEAD'' v)"
    if "Method r \<noteq> ''GET'' \<and> Method r \<noteq> ''HEAD''" for t d v
    using that unfolding photosHandler_def by simp
  have st: "Status (response (httpError ''method not allowed'' 405 (setHeader ''Allow'' ''GET, HEAD'' newWriter))) = 405"
    by (simp add: response_proj)
  have indep: "photosHandler s' dir' r w = photosHandler s dir r w"
    using nf na by (cases "Method r = ''GET'' \<or> Method r = ''HEAD''") simp_all
  show ?thesis using nf na st indep by (simp add: NotFound_status NotFound_body)
qed




lemma osGetenv_upd:
  "osGetenv (environ(k \<mapsto> v)) k' = (if k' = k then v else osGetenv environ k')"
  "osGetenv (environ(k := None)) k' = (if k' = k then [] else osGetenv environ k')"
  by (simp_all add: osGetenv_def)

lemma blank_getenv:
  assumes "TrimSpace v = []"
  shows "TrimSpace (osGetenv (environ(k \<mapsto> v)) k') = TrimSpace (osGetenv (environ(k := None)) k')"
  using assms by (simp add: osGetenv_upd)

lemma Abs_photos: "Abs wd ''/photos'' = Inr ''/photos''"
proof -
  have "IsAbs ''/photos''" by (simp add: IsAbs_def hasPrefix_def)
  moreover have "Clean ''/photos'' = ''/photos''" by code_simp
  ultimately show ?thesis by (simp add: Abs_def)
qed

text \<open>
  C10. Setting any environment variable to a white-space-only value, that is to any
  sequence of Unicode white-space characters (the empty one included), starts the same
  server (address and handler) as leaving it unset: a blank \<open>AUTH_TOKEN\<close> gives an empty
  token and a handler without the Auth Gate, a blank \<open>PORT\<close> gives port \<open>80\<close>, and a
  blank \<open>PHOTOS_DIR\<close> gives \<open>/photos\<close>.
\<close>

theorem blank_config_is_unset:
  assumes blank: "list_all (\<lambda>w. w \<in> set unicodeSpaces) ws"
  shows
    "main s (environ(k \<mapsto> concat ws)) = main s (environ(k := None)) \<and>
     (\<forall>cfg. loadConfig wd (environ(''AUTH_TOKEN'' \<mapsto> concat ws)) = Inr cfg \<longrightarrow>
        authToken cfg = [] \<and> server s cfg = securityHeaders (mux s (absPhotosDir cfg))) \<and>
     (\<forall>cfg. loadConfig wd (environ(''PORT'' \<mapsto> concat ws)) = Inr cfg \<longrightarrow> port cfg = ''80'') \<and>
     (\<forall>cfg. loadConfig wd (environ(''PHOTOS_DIR'' \<mapsto> concat ws)) = Inr cfg \<longrightarrow>
        absPhotosDir cfg = ''/photos'')"
proof -
  define v where "v = concat ws"
  have tv: "TrimSpace v = []"
    unfolding v_def using blank by (intro TrimSpace_blank) (auto simp: list_all_iff)
  note g = blank_getenv [OF tv]
  have lc: "loadConfig d (environ(k \<mapsto> v)) = loadConfig d (environ(k := None))" for d
    unfolding loadConfig_def getenv_def Let_def g ..
  have m: "main s (environ(k \<mapsto> v)) = main s (environ(k := None))"
    unfolding main_def lc ..
  have a: "authToken cfg = [] \<and> server s cfg = securityHeaders (mux s (absPhotosDir cfg))"
    if "loadConfig wd (environ(''AUTH_TOKEN'' \<mapsto> v)) = Inr cfg" for cfg
  proof -
    have "authToken cfg = []"
      using that tv by (auto simp: loadConfig_def Let_def osGetenv_def split: sum.splits)
    then show ?thesis by (simp add: server_def)
  qed
  have p: "port cfg = ''80''"
    if "loadConfig wd (environ(''PORT'' \<mapsto> v)) = Inr cfg" for cfg
    using that tv by (auto simp: loadConfig_def getenv_def Let_def osGetenv_def split: sum.splits)
  have d: "absPhotosDir cfg = ''/photos''"
    if "loadConfig wd (environ(''PHOTOS_DIR'' \<mapsto> v)) = Inr cfg" for cfg
    using that tv Abs_photos [of wd]
    by (auto simp: loadConfig_def getenv_def Let_def osGetenv_def split: sum.splits)
  show ?thesis using m a p d unfolding v_def by blast
qed

section \<open>The theorems at the example requests\<close>







theorem photos_traversal_rejected_witness:
  "containsStr ''../'' (trimPrefix ''/photos/'' (Path (exTraversalReq ''GET''))) \<and>
   Status (response (photosHandler exSys ''/photos'' (exTraversalReq ''GET'') newWriter)) = 404 \<and>
   Body (response (photosHandler exSys ''/photos'' (exTraversalReq ''GET'') newWriter)) =
     [Bytes (''404 page not found'' @ [CHR 0x0A])]"
proof -
  have bad: "containsStr ''../'' (trimPrefix ''/photos/'' (Path (exTraversalReq ''GET'')))"
    by code_simp
  have m: "Method (exTraversalReq ''GET'') = ''GET''" by code_simp
  show ?thesis
    using photos_traversal_rejected
        [of "exTraversalReq ''GET''" exSys "''/photos''" newWriter exSys "''/photos''",
         OF disjI1 [OF bad]]
      bad m by auto
qed

text \<open>The method is checked before the name: a POST of a traversal name is answered 405,
  not 404.\<close>

theorem photos_traversal_method_counterexample:
  "containsStr ''../'' (trimPrefix ''/photos/'' (Path (exTraversalReq ''POST''))) \<and>
   Method (exTraversalReq ''POST'') = ''POST'' \<and>
   Status (response (photosHandler exSys ''/photos'' (exTraversalReq ''POST'') newWriter)) = 405"
  by code_simp


theorem blank_config_is_unset_witness:
  "list_all (\<lambda>w. w \<in> set unicodeSpaces) exBlank \<and>
   concat exBlank = [CHR 0x20, CHR 0xC2, CHR 0xA0, CHR 0x09, CHR 0xE3, CHR 0x80, CHR 0x80] \<and>
   main exSys [''AUTH_TOKEN'' \<mapsto> concat exBlank] = main exSys Map.empty \<and>
   loadConfig (Inr ''/'') [''AUTH_TOKEN'' \<mapsto> concat exBlank] =
     Inr \<lparr>port = ''80'', absPhotosDir = ''/photos'', authToken = []\<rparr> \<and>
   server exSys \<lparr>port = ''80'', absPhotosDir = ''/photos'', authToken = []\<rparr> =
     securityHeaders (mux exSys ''/photos'') \<and>
   loadConfig (Inr ''/'') [''PORT'' \<mapsto> concat exBlank, ''PHOTOS_DIR'' \<mapsto> concat exBlank] =
     Inr \<lparr>port = ''80'', absPhotosDir = ''/photos'', authToken = []\<rparr>"
proof -
  have b: "list_all (\<lambda>w. w \<in> set unicodeSpaces) exBlank" by code_simp
  have cc: "concat exBlank = [CHR 0x20, CHR 0xC2, CHR 0xA0, CHR 0x09, CHR 0xE3, CHR 0x80, CHR 0x80]"
    by code_simp
  have lc: "loadConfig (Inr ''/'') [''AUTH_TOKEN'' \<mapsto> concat exBlank] =
     Inr \<lparr>port = ''80'', absPhotosDir = ''/photos'', authToken = []\<rparr>" by code_simp
  have lc2: "loadConfig (Inr ''/'') [''PORT'' \<mapsto> concat exBlank, ''PHOTOS_DIR'' \<mapsto> concat exBlank] =
     Inr \<lparr>port = ''80'', absPhotosDir = ''/photos'', authToken = []\<rparr>" by code_simp
  note t = blank_config_is_unset [OF b, of exSys Map.empty "''AUTH_TOKEN''" "Inr ''/''"]
  have m: "main exSys [''AUTH_TOKEN'' \<mapsto> concat exBlank] = main exSys Map.empty"
    using t by simp
  have s: "server exSys \<lparr>port = ''80'', absPhotosDir = ''/photos'', authToken = []\<rparr> =
     securityHeaders (mux exSys ''/photos'')"
    using t lc by simp
  show ?thesis using b cc m lc s lc2 by blast
qed

end
